theory Spec2Isabelle
  imports Complex_Main "HOL-Library.Word" "HOL-Library.Log_Nat"
begin

unbundle bit_operations_syntax

section \<open>Constructive reals of package constructive\<close>

text \<open>
  The development embeds the evaluator of \<^verbatim>\<open>pkg/constructive\<close>: the big-integer
  helpers, the precision tracker, the expression nodes with their \<^verbatim>\<open>approximate\<close>
  methods, the driver \<^verbatim>\<open>Approximate\<close>, the comparison and printing functions and
  the wrappers that build nodes.

  Conventions.
  \<^item> Go's \<^verbatim>\<open>int\<close> and \<^verbatim>\<open>int64\<close> are 64-bit words (\<^verbatim>\<open>IntSize = 64\<close>): arithmetic on
    precisions wraps, comparisons are signed.
  \<^item> A \<^verbatim>\<open>*big.Int\<close> is an \<open>int option\<close>; \<open>None\<close> is the nil pointer, and using it
    in arithmetic is a panic.
  \<^item> A panic is the left injection of a sum; the recovered value keeps the text that
    \<^verbatim>\<open>%v\<close> prints.
  \<^item> Every node struct embeds a \<^verbatim>\<open>precisionTracker\<close>; the node's address identifies
    that tracker in the heap, so that a node shared by two parents has one tracker.
  \<^item> The \<^verbatim>\<open>approximate\<close> methods of the series kernels and of \<^verbatim>\<open>constructiveCondsign\<close>
    rest on \<^verbatim>\<open>math.Log2\<close>, \<^verbatim>\<open>math.Sqrt\<close> and the unbounded \<^verbatim>\<open>Sign\<close> loop; they are
    the parameter \<open>K\<close> of the evaluator, and every statement below holds for all \<open>K\<close>.
\<close>

subsection \<open>Machine integers, panics and big integers\<close>

type_synonym goint = "64 word"

definition IntSize :: nat where
  "IntSize = 64"

definition MinInt :: goint where
  "MinInt = - (2 ^ 63)"

datatype panic = NilDereference | DivisionByZero | InvalidBase

definition bigAdd :: "int \<Rightarrow> int \<Rightarrow> int" where
  "bigAdd a b = a + b"

definition bigSub :: "int \<Rightarrow> int \<Rightarrow> int" where
  "bigSub a b = a - b"

definition bigLsh :: "int \<Rightarrow> nat \<Rightarrow> int" where
  "bigLsh a n = push_bit n a"

definition bigRsh :: "int \<Rightarrow> nat \<Rightarrow> int" where
  "bigRsh a n = drop_bit n a"

definition bigAbs :: "int \<Rightarrow> int" where
  "bigAbs a = \<bar>a\<bar>"

definition bigNeg :: "int \<Rightarrow> int" where
  "bigNeg a = - a"

definition bigMul :: "int \<Rightarrow> int \<Rightarrow> int" where
  "bigMul a b = a * b"

definition bigDiv :: "int \<Rightarrow> int \<Rightarrow> panic + int" where
  "bigDiv a b = (if b = 0 then Inl DivisionByZero else Inr (sgn b * (a div \<bar>b\<bar>)))"

definition bigExp :: "int \<Rightarrow> int \<Rightarrow> int" where
  "bigExp a b = (if b \<le> 0 then 1 else a ^ nat b)"

definition BitLen :: "int \<Rightarrow> nat" where
  "BitLen x = nat (bitlen \<bar>x\<bar>)"

definition IsIntWithinBitTolerance :: "goint \<Rightarrow> goint \<Rightarrow> bool" where
  "IsIntWithinBitTolerance v tolerance =
     (let highBits = signed_drop_bit (IntSize - 4) v;
          topBits = signed_drop_bit (IntSize - 3) v
      in highBits XOR topBits = 0)"

definition IsPrecisionValid :: "goint \<Rightarrow> bool" where
  "IsPrecisionValid p = IsIntWithinBitTolerance p 4"

definition signedShift :: "int \<Rightarrow> goint \<Rightarrow> int" where
  "signedShift i n =
     (if n <s 0 then bigRsh i (unat (- n))
      else if 0 <s n then bigLsh i (unat n)
      else i)"

definition scale :: "int \<Rightarrow> goint \<Rightarrow> int" where
  "scale i n =
     (if 0 \<le>s n then bigLsh i (unat n)
      else bigRsh (bigAdd (signedShift i (n + 1)) 1) 1)"

record precisionTracker =
  IsValid :: bool
  MaxApproximation :: "int option"
  MinPrecision :: goint

definition Get :: "precisionTracker \<Rightarrow> goint \<Rightarrow> panic + (int option \<times> bool)" where
  "Get t p =
     (if IsValid t \<and> MinPrecision t \<le>s p then
        (case MaxApproximation t of
           None \<Rightarrow> Inl NilDereference
         | Some m \<Rightarrow> Inr (Some (scale m (MinPrecision t - p)), True))
      else Inr (None, False))"

definition Set :: "precisionTracker \<Rightarrow> goint \<Rightarrow> int option \<Rightarrow> int option \<times> precisionTracker" where
  "Set t p i = (i, t\<lparr>IsValid := True, MaxApproximation := i, MinPrecision := p\<rparr>)"


type_synonym addr = nat

datatype Real =
    Nil
  | constructiveInteger addr int
  | constructiveAddition addr Real Real
  | constructiveMultiplication addr Real Real
  | constructiveMultiplicativeInverse addr Real
  | constructiveShift addr Real goint
  | constructiveNegation addr Real
  | constructiveCondsign addr Real Real Real
  | prescaledExponential addr Real
  | prescaledNaturalLog addr Real
  | integralArctan addr Real
  | prescaledSqrt addr Real
  | prescaledCosine addr Real
  | named Real string

record heap =
  trackers :: "addr \<Rightarrow> precisionTracker"
  brk :: addr
  onceZero :: "Real option"
  onceOne :: "Real option"

type_synonym kernel = "Real \<Rightarrow> goint \<Rightarrow> heap \<Rightarrow> panic + (int option \<times> heap)"

fun tracker :: "Real \<Rightarrow> addr option" where
  "tracker Nil = None"
| "tracker (constructiveInteger t i) = Some t"
| "tracker (constructiveAddition t a b) = Some t"
| "tracker (constructiveMultiplication t a b) = Some t"
| "tracker (constructiveMultiplicativeInverse t r) = Some t"
| "tracker (constructiveShift t r n) = Some t"
| "tracker (constructiveNegation t r) = Some t"
| "tracker (constructiveCondsign t r a b) = Some t"
| "tracker (prescaledExponential t r) = Some t"
| "tracker (prescaledNaturalLog t r) = Some t"
| "tracker (integralArctan t r) = Some t"
| "tracker (prescaledSqrt t r) = Some t"
| "tracker (prescaledCosine t r) = Some t"
| "tracker (named r nm) = tracker r"

definition knownMSD :: "Real \<Rightarrow> heap \<Rightarrow> panic + goint" where
  "knownMSD c h =
     (case tracker c of
        None \<Rightarrow> Inl NilDereference
      | Some t \<Rightarrow>
          (case MaxApproximation (trackers h t) of
             None \<Rightarrow> Inl NilDereference
           | Some m \<Rightarrow>
               if 0 \<le> sgn m
               then Inr (MinPrecision (trackers h t) + of_nat (BitLen m) - 1)
               else Inr (MinPrecision (trackers h t) + of_nat (BitLen (bigNeg m)) - 1)))"

fun Approximate :: "kernel \<Rightarrow> Real \<Rightarrow> goint \<Rightarrow> heap \<Rightarrow> panic + (int option \<times> heap)"
and approximate :: "kernel \<Rightarrow> Real \<Rightarrow> goint \<Rightarrow> heap \<Rightarrow> panic + (int option \<times> heap)"
and msd :: "kernel \<Rightarrow> Real \<Rightarrow> goint \<Rightarrow> heap \<Rightarrow> panic + (goint \<times> heap)"
where
  "Approximate K c p h =
     (if \<not> IsPrecisionValid p then Inr (None, h)
      else case tracker c of
        None \<Rightarrow> Inl NilDereference
      | Some t \<Rightarrow>
          (case Get (trackers h t) p of
             Inl e \<Rightarrow> Inl e
           | Inr (s, True) \<Rightarrow> Inr (s, h)
           | Inr (s, False) \<Rightarrow>
               (case approximate K c p h of
                  Inl e \<Rightarrow> Inl e
                | Inr (s', h') \<Rightarrow>
                    Inr (fst (Set (trackers h' t) p s'),
                         h'\<lparr>trackers := (trackers h')(t := snd (Set (trackers h' t) p s'))\<rparr>))))"
| "approximate K Nil p h = Inl NilDereference"
| "approximate K (constructiveInteger t i) p h = Inr (Some (scale i (- p)), h)"
| "approximate K (constructiveAddition t a b) p h =
     (case Approximate K a (p - 2) h of
        Inl e \<Rightarrow> Inl e
      | Inr (x, h1) \<Rightarrow>
          (case Approximate K b (p - 2) h1 of
             Inl e \<Rightarrow> Inl e
           | Inr (y, h2) \<Rightarrow>
               (case (x, y) of
                  (Some x', Some y') \<Rightarrow> Inr (Some (scale (bigAdd x' y') (- 2)), h2)
                | _ \<Rightarrow> Inl NilDereference)))"
| "approximate K (constructiveMultiplication t a b) p h =
     (let hp = signed_drop_bit 1 p - 1 in
      case msd K a hp h of
        Inl e \<Rightarrow> Inl e
      | Inr (ma, h1) \<Rightarrow>
          (case (if ma = MinInt
                 then (case msd K b hp h1 of
                         Inl e \<Rightarrow> Inl e
                       | Inr (mb, h2) \<Rightarrow> Inr (mb, h2))
                 else Inr (ma, h1)) of
             Inl e \<Rightarrow> Inl e
           | Inr (ma', h2) \<Rightarrow>
               if ma' = MinInt then Inr (Some 0, h2)
               else
                 (let p2 = p - ma' - 3 in
                  case Approximate K b p2 h2 of
                    Inl e \<Rightarrow> Inl e
                  | Inr (None, h3) \<Rightarrow> Inl NilDereference
                  | Inr (Some ib, h3) \<Rightarrow>
                      if sgn ib = 0 then Inr (Some 0, h3)
                      else
                        (case knownMSD b h3 of
                           Inl e \<Rightarrow> Inl e
                         | Inr mb \<Rightarrow>
                             (let p1 = p - mb - 3 in
                              case Approximate K a p1 h3 of
                                Inl e \<Rightarrow> Inl e
                              | Inr (None, h4) \<Rightarrow> Inl NilDereference
                              | Inr (Some ia, h4) \<Rightarrow>
                                  Inr (Some (scale (bigMul ia ib) (p1 + p2 - p)), h4))))))"
| "approximate K (constructiveMultiplicativeInverse t r) p h =
     (case msd K r p h of
        Inl e \<Rightarrow> Inl e
      | Inr (mr, h1) \<Rightarrow>
          (let ir = 1 - mr;
               digits = ir - p + 3;
               pn = mr - digits;
               lsf = - p - pn
           in if lsf <s 0 then Inr (Some 0, h1)
              else
                (let dividend = bigLsh 1 (unat lsf) in
                 case Approximate K r pn h1 of
                   Inl e \<Rightarrow> Inl e
                 | Inr (None, h2) \<Rightarrow> Inl NilDereference
                 | Inr (Some divisor, h2) \<Rightarrow>
                     (let absolute = bigAbs divisor;
                          adj = bigAdd dividend (bigRsh absolute 1)
                      in case bigDiv adj divisor of
                           Inl e \<Rightarrow> Inl e
                         | Inr res \<Rightarrow>
                             if sgn res < 0 then Inr (Some (bigNeg res), h2)
                             else Inr (Some res, h2)))))"
| "approximate K (constructiveShift t r n) p h = Approximate K r (p - n) h"
| "approximate K (constructiveNegation t r) p h =
     (case Approximate K r p h of
        Inl e \<Rightarrow> Inl e
      | Inr (None, h1) \<Rightarrow> Inl NilDereference
      | Inr (Some x, h1) \<Rightarrow> Inr (Some (bigNeg x), h1))"
| "approximate K (named r nm) p h = approximate K r p h"
| "approximate K (constructiveCondsign t r a b) p h = K (constructiveCondsign t r a b) p h"
| "approximate K (prescaledExponential t r) p h = K (prescaledExponential t r) p h"
| "approximate K (prescaledNaturalLog t r) p h = K (prescaledNaturalLog t r) p h"
| "approximate K (integralArctan t r) p h = K (integralArctan t r) p h"
| "approximate K (prescaledSqrt t r) p h = K (prescaledSqrt t r) p h"
| "approximate K (prescaledCosine t r) p h = K (prescaledCosine t r) p h"
| "msd K c n h =
     (case tracker c of
        None \<Rightarrow> Inl NilDereference
      | Some t \<Rightarrow>
          (case (if \<not> IsValid (trackers h t) then Inr True
                 else (case MaxApproximation (trackers h t) of
                         None \<Rightarrow> Inl NilDereference
                       | Some m \<Rightarrow> Inr (m \<le> 1 \<and> - 1 \<le> m))) of
             Inl e \<Rightarrow> Inl e
           | Inr False \<Rightarrow>
               (case knownMSD c h of Inl e \<Rightarrow> Inl e | Inr m \<Rightarrow> Inr (m, h))
           | Inr True \<Rightarrow>
               (case Approximate K c (n - 1) h of
                  Inl e \<Rightarrow> Inl e
                | Inr (x, h1) \<Rightarrow>
                    (case MaxApproximation (trackers h1 t) of
                       None \<Rightarrow> Inl NilDereference
                     | Some m \<Rightarrow>
                         if bigAbs m \<le> 1 then Inr (MinInt, h1)
                         else (case knownMSD c h1 of
                                 Inl e \<Rightarrow> Inl e
                               | Inr m' \<Rightarrow> Inr (m', h1))))))"


definition zeroTracker :: precisionTracker where
  "zeroTracker = \<lparr>IsValid = False, MaxApproximation = None, MinPrecision = 0\<rparr>"

definition alloc :: "heap \<Rightarrow> addr \<times> heap" where
  "alloc h = (brk h, h\<lparr>trackers := (trackers h)(brk h := zeroTracker), brk := Suc (brk h)\<rparr>)"

definition newInteger :: "int \<Rightarrow> heap \<Rightarrow> Real \<times> heap" where
  "newInteger i h = (case alloc h of (t, h') \<Rightarrow> (constructiveInteger t i, h'))"

definition FromInt64 :: "goint \<Rightarrow> heap \<Rightarrow> Real \<times> heap" where
  "FromInt64 i h = newInteger (sint i) h"

definition FromInt :: "goint \<Rightarrow> heap \<Rightarrow> Real \<times> heap" where
  "FromInt i h = FromInt64 i h"

definition newAddition :: "Real \<Rightarrow> Real \<Rightarrow> heap \<Rightarrow> Real \<times> heap" where
  "newAddition a b h = (case alloc h of (t, h') \<Rightarrow> (constructiveAddition t a b, h'))"

definition newNegation :: "Real \<Rightarrow> heap \<Rightarrow> Real \<times> heap" where
  "newNegation r h = (case alloc h of (t, h') \<Rightarrow> (constructiveNegation t r, h'))"

definition newMultiplication :: "Real \<Rightarrow> Real \<Rightarrow> heap \<Rightarrow> Real \<times> heap" where
  "newMultiplication a b h = (case alloc h of (t, h') \<Rightarrow> (constructiveMultiplication t a b, h'))"

definition newMultiplicativeInverse :: "Real \<Rightarrow> heap \<Rightarrow> Real \<times> heap" where
  "newMultiplicativeInverse r h =
     (case alloc h of (t, h') \<Rightarrow> (constructiveMultiplicativeInverse t r, h'))"

definition newShift :: "Real \<Rightarrow> goint \<Rightarrow> heap \<Rightarrow> Real \<times> heap" where
  "newShift r n h = (case alloc h of (t, h') \<Rightarrow> (constructiveShift t r n, h'))"

definition newPrescaledSqrt :: "Real \<Rightarrow> heap \<Rightarrow> Real \<times> heap" where
  "newPrescaledSqrt c h = (case alloc h of (t, h') \<Rightarrow> (prescaledSqrt t c, h'))"

definition newPrescaledNaturalLog :: "Real \<Rightarrow> heap \<Rightarrow> Real \<times> heap" where
  "newPrescaledNaturalLog c h = (case alloc h of (t, h') \<Rightarrow> (prescaledNaturalLog t c, h'))"

definition newNamed :: "string \<Rightarrow> Real \<Rightarrow> Real" where
  "newNamed name c = named c name"

definition Add :: "Real \<Rightarrow> Real \<Rightarrow> heap \<Rightarrow> Real \<times> heap" where
  "Add a b h = newAddition a b h"

definition Negate :: "Real \<Rightarrow> heap \<Rightarrow> Real \<times> heap" where
  "Negate c h = newNegation c h"

definition Subtract :: "Real \<Rightarrow> Real \<Rightarrow> heap \<Rightarrow> Real \<times> heap" where
  "Subtract a b h = (case Negate b h of (nb, h1) \<Rightarrow> newAddition a nb h1)"

definition Multiply :: "Real \<Rightarrow> Real \<Rightarrow> heap \<Rightarrow> Real \<times> heap" where
  "Multiply a b h = newMultiplication a b h"

definition Inverse :: "Real \<Rightarrow> heap \<Rightarrow> Real \<times> heap" where
  "Inverse c h = newMultiplicativeInverse c h"

definition ShiftLeft :: "Real \<Rightarrow> goint \<Rightarrow> heap \<Rightarrow> Real \<times> heap" where
  "ShiftLeft c n h = newShift c n h"

definition ShiftRight :: "Real \<Rightarrow> goint \<Rightarrow> heap \<Rightarrow> Real \<times> heap" where
  "ShiftRight c n h = newShift c (- n) h"

definition Sqrt :: "Real \<Rightarrow> heap \<Rightarrow> Real \<times> heap" where
  "Sqrt c h = newPrescaledSqrt c h"

definition Zero :: "heap \<Rightarrow> Real \<times> heap" where
  "Zero h =
     (case onceZero h of
        Some z \<Rightarrow> (z, h)
      | None \<Rightarrow>
          (case FromInt 0 h of
             (i, h1) \<Rightarrow> (newNamed ''0'' i, h1\<lparr>onceZero := Some (newNamed ''0'' i)\<rparr>)))"

definition One :: "heap \<Rightarrow> Real \<times> heap" where
  "One h =
     (case onceOne h of
        Some z \<Rightarrow> (z, h)
      | None \<Rightarrow>
          (case FromInt 1 h of
             (i, h1) \<Rightarrow> (newNamed ''1'' i, h1\<lparr>onceOne := Some (newNamed ''1'' i)\<rparr>)))"

definition SimpleLn :: "Real \<Rightarrow> heap \<Rightarrow> Real \<times> heap" where
  "SimpleLn c h =
     (case One h of
        (one, h1) \<Rightarrow>
          (case Subtract c one h1 of
             (d, h2) \<Rightarrow> newPrescaledNaturalLog d h2))"

partial_function (option) Ln :: "kernel \<Rightarrow> Real \<Rightarrow> heap \<Rightarrow> (panic + Real \<times> heap) option" where
  "Ln K c h =
     (case Approximate K c (- 4) h of
        Inl e \<Rightarrow> Some (Inl e)
      | Inr (None, h1) \<Rightarrow> Some (Inl NilDereference)
      | Inr (Some rough, h1) \<Rightarrow>
          if sgn rough < 0 then Some (Inr (Nil, h1))
          else if rough < 8 then
            (case Inverse c h1 of
               (ic, h2) \<Rightarrow>
                 Option.bind (Ln K ic h2)
                   (\<lambda>r. case r of
                           Inl e \<Rightarrow> Some (Inl e)
                         | Inr (l, h3) \<Rightarrow> Some (Inr (Negate l h3))))
          else if 24 < rough then
            (case Sqrt c h1 of
               (s1, h2) \<Rightarrow>
                 (case Sqrt s1 h2 of
                    (s2, h3) \<Rightarrow>
                      Option.bind (Ln K s2 h3)
                        (\<lambda>r. case r of
                                Inl e \<Rightarrow> Some (Inl e)
                              | Inr (l, h4) \<Rightarrow> Some (Inr (ShiftLeft l 2 h4)))))
          else Some (Inr (SimpleLn c h1)))"

fun cf64Loop :: "goint list \<Rightarrow> nat \<Rightarrow> Real \<Rightarrow> heap \<Rightarrow> Real \<times> heap" where
  "cf64Loop fracs 0 c h = (c, h)"
| "cf64Loop fracs (Suc i) c h =
     (case FromInt64 (fracs ! i) h of
        (x, h1) \<Rightarrow>
          (case Inverse c h1 of
             (ic, h2) \<Rightarrow>
               (case Add x ic h2 of
                  (c', h3) \<Rightarrow> cf64Loop fracs i c' h3)))"

definition ContinuedFraction64 :: "goint list \<Rightarrow> heap \<Rightarrow> Real \<times> heap" where
  "ContinuedFraction64 fracs h =
     (if length fracs = 0 then Zero h
      else (case FromInt64 (fracs ! (length fracs - 1)) h of
              (c, h1) \<Rightarrow> cf64Loop fracs (length fracs - 1) c h1))"

fun cfLoop :: "Real list \<Rightarrow> nat \<Rightarrow> Real \<Rightarrow> heap \<Rightarrow> Real \<times> heap" where
  "cfLoop fracs 0 c h = (c, h)"
| "cfLoop fracs (Suc i) c h =
     (case Inverse c h of
        (ic, h1) \<Rightarrow>
          (case Add (fracs ! i) ic h1 of
             (c', h2) \<Rightarrow> cfLoop fracs i c' h2))"

definition ContinuedFraction :: "Real list \<Rightarrow> heap \<Rightarrow> Real \<times> heap" where
  "ContinuedFraction fracs h =
     (if length fracs = 0 then Zero h
      else cfLoop fracs (length fracs - 1) (fracs ! (length fracs - 1)) h)"

definition PreciseCmp :: "kernel \<Rightarrow> Real \<Rightarrow> Real \<Rightarrow> goint \<Rightarrow> heap \<Rightarrow> panic + (int \<times> heap)" where
  "PreciseCmp K a b p h =
     (if a = Nil \<or> b = Nil then Inr (0, h)
      else
        (case Approximate K a (p - 1) h of
           Inl e \<Rightarrow> Inl e
         | Inr (ia, h1) \<Rightarrow>
             (case Approximate K b (p - 1) h1 of
                Inl e \<Rightarrow> Inl e
              | Inr (ib, h2) \<Rightarrow>
                  (case (ia, ib) of
                     (Some x, Some y) \<Rightarrow>
                       if bigAdd y 1 < x then Inr (1, h2)
                       else if x < bigSub y 1 then Inr (- 1, h2)
                       else Inr (0, h2)
                   | _ \<Rightarrow> Inr (0, h2)))))"

partial_function (option) CmpLoop ::
  "kernel \<Rightarrow> Real \<Rightarrow> Real \<Rightarrow> goint \<Rightarrow> heap \<Rightarrow> (panic + (int \<times> heap)) option" where
  "CmpLoop K a b p h =
     (if \<not> IsPrecisionValid p then Some (Inr (0, h))
      else
        (case PreciseCmp K a b p h of
           Inl e \<Rightarrow> Some (Inl e)
         | Inr (v, h1) \<Rightarrow>
             if v \<noteq> 0 then Some (Inr (v, h1))
             else CmpLoop K a b (p * 2) h1))"

definition Cmp :: "kernel \<Rightarrow> Real \<Rightarrow> Real \<Rightarrow> heap \<Rightarrow> (panic + (int \<times> heap)) option" where
  "Cmp K a b h = CmpLoop K a b (- 20) h"

definition digitChars :: string where
  "digitChars = ''0123456789abcdefghijklmnopqrstuvwxyzABCDEFGHIJKLMNOPQRSTUVWXYZ''"

function natText :: "nat \<Rightarrow> nat \<Rightarrow> string" where
  "natText base n =
     (if base < 2 \<or> n < base then [digitChars ! n]
      else natText base (n div base) @ [digitChars ! (n mod base)])"
  by pat_completeness auto
termination
  by (relation "measure snd") auto

declare natText.simps [simp del]

definition bigText :: "int \<Rightarrow> goint \<Rightarrow> panic + string" where
  "bigText x base =
     (if base <s 2 \<or> 62 <s base then Inl InvalidBase
      else Inr ((if x < 0 then ''-'' else []) @ natText (nat (sint base)) (nat \<bar>x\<bar>)))"

definition panicText :: "panic \<Rightarrow> string" where
  "panicText e =
     (case e of
        NilDereference \<Rightarrow> ''runtime error: invalid memory address or nil pointer dereference''
      | DivisionByZero \<Rightarrow> ''division by zero''
      | InvalidBase \<Rightarrow> ''invalid base'')"

definition recovered :: "panic \<Rightarrow> string" where
  "recovered e = ''<undefined: '' @ panicText e @ ''>''"

definition Text :: "kernel \<Rightarrow> Real \<Rightarrow> goint \<Rightarrow> goint \<Rightarrow> heap \<Rightarrow> string \<times> heap option" where
  "Text K c dec radix h =
     (case (if radix = 16 then ShiftLeft c (4 * dec) h
            else (case newInteger (bigExp (sint radix) (sint dec)) h of
                    (sf, h1) \<Rightarrow> Multiply c sf h1)) of
        (sc, h2) \<Rightarrow>
          (case Approximate K sc 0 h2 of
             Inl e \<Rightarrow> (recovered e, None)
           | Inr (None, h3) \<Rightarrow> (recovered NilDereference, None)
           | Inr (Some si, h3) \<Rightarrow>
               (case bigText (bigAbs si) radix of
                  Inl e \<Rightarrow> (recovered e, None)
                | Inr ss \<Rightarrow>
                    (let out =
                       (if 0 <s dec then
                          (let ss' = (if int (length ss) \<le> sint dec
                                      then replicate (unat (dec + 1 - of_nat (length ss))) CHR ''0'' @ ss
                                      else ss)
                           in take (length ss' - unat dec) ss' @ ''.'' @ drop (length ss' - unat dec) ss')
                        else ss)
                     in (if sgn si < 0 then ''-'' @ out else out, Some h3)))))"

text \<open>The ideal value of a node built from the integer and algebraic constructors;
  \<open>pow2 k\<close> is \<open>2\<^sup>k\<close> for an integer \<open>k\<close> of either sign.\<close>

definition pow2 :: "int \<Rightarrow> real" where
  "pow2 k = 2 powi k"

fun val :: "Real \<Rightarrow> real" where
  "val (constructiveInteger t i) = of_int i"
| "val (constructiveAddition t a b) = val a + val b"
| "val (constructiveMultiplication t a b) = val a * val b"
| "val (constructiveMultiplicativeInverse t r) = inverse (val r)"
| "val (constructiveShift t r n) = val r * pow2 (sint n)"
| "val (constructiveNegation t r) = - val r"
| "val (named r nm) = val r"
| "val c = 0"

declare Approximate.simps [simp del] msd.simps [simp del]

declare Ln.simps [code] CmpLoop.simps [code]

subsection \<open>Reference notions used in the statements\<close>

text \<open>Rounding to the nearest integer with ties away from zero, as the prose describes
  the rescaling.\<close>

definition roundHalfAway :: "real \<Rightarrow> int" where
  "roundHalfAway x = (if x < 0 then - \<lfloor>- x + 1 / 2\<rfloor> else \<lfloor>x + 1 / 2\<rfloor>)"

text \<open>The heap before anything is allocated, and a kernel that panics; both serve as
  concrete instances.\<close>

definition emptyHeap :: heap where
  "emptyHeap = \<lparr>trackers = (\<lambda>_. zeroTracker), brk = 0, onceZero = None, onceOne = None\<rparr>"

definition noKernel :: kernel where
  "noKernel c p h = Inl NilDereference"


text \<open>The value of a continued fraction \<open>[x\<^sub>0; x\<^sub>1, \<dots>, x\<^sub>n]\<close>.\<close>

fun cfValue :: "real list \<Rightarrow> real" where
  "cfValue [] = 0"
| "cfValue [x] = x"
| "cfValue (x # y # ys) = x + inverse (cfValue (y # ys))"

text \<open>Running \<^verbatim>\<open>PreciseCmp\<close> over a given list of precisions, stopping at the first
  non-zero answer; and the precisions \<open>-20, -40, \<dots>, -20 \<cdot> 2\<^sup>5\<^sup>5\<close>.\<close>

fun cmpOver :: "kernel \<Rightarrow> Real \<Rightarrow> Real \<Rightarrow> goint list \<Rightarrow> heap \<Rightarrow> panic + (int \<times> heap)" where
  "cmpOver K a b [] h = Inr (0, h)"
| "cmpOver K a b (p # ps) h =
     (case PreciseCmp K a b p h of
        Inl e \<Rightarrow> Inl e
      | Inr (v, h1) \<Rightarrow> if v \<noteq> 0 then Inr (v, h1) else cmpOver K a b ps h1)"

definition cmpPrecisions :: "goint list" where
  "cmpPrecisions = map (\<lambda>k. - 20 * 2 ^ k) [0..<56]"

text \<open>The fixed-point rendering as the prose gives it: the digits of the absolute
  value, left-padded with zeros to \<open>dec + 1\<close> digits, a radix point before the last
  \<open>dec\<close> digits, and a minus sign in front of a negative value.\<close>

definition textSpec :: "int \<Rightarrow> nat \<Rightarrow> nat \<Rightarrow> string" where
  "textSpec si dec radix =
     (let ds = natText radix (nat \<bar>si\<bar>);
          padded = replicate (dec + 1 - length ds) CHR ''0'' @ ds
      in (if si < 0 then ''-'' else []) @
         take (length padded - dec) padded @ ''.'' @ drop (length padded - dec) padded)"

subsection \<open>Notions for the approximation contract\<close>

text \<open>An integer \<open>a\<close> approximates the real \<open>x\<close> at precision \<open>k\<close> when it is within one
  unit of \<open>2\<^sup>k\<close> of it.\<close>

definition approximates :: "real \<Rightarrow> int \<Rightarrow> int \<Rightarrow> bool" where
  "approximates x k a = (\<bar>of_int a * pow2 k - x\<bar> < pow2 k)"

text \<open>The nodes built from integer leaves by Add, Subtract (an addition of a negation),
  Negate, ShiftLeft, ShiftRight and Multiply, possibly named.\<close>

fun algebraic :: "Real \<Rightarrow> bool" where
  "algebraic (constructiveInteger t i) = True"
| "algebraic (constructiveAddition t a b) = (algebraic a \<and> algebraic b)"
| "algebraic (constructiveMultiplication t a b) = (algebraic a \<and> algebraic b)"
| "algebraic (constructiveShift t r n) = algebraic r"
| "algebraic (constructiveNegation t r) = algebraic r"
| "algebraic (named r nm) = algebraic r"
| "algebraic c = False"

text \<open>Addresses identify nodes: \<open>V\<close> gives, for the address of every node of the
  expression, the value of that node. Two occurrences of an address are then two
  uses of one node (or of nodes of equal value), sharing one tracker.\<close>

fun consistent :: "(addr \<Rightarrow> real) \<Rightarrow> Real \<Rightarrow> bool" where
  "consistent V (constructiveInteger t i) = (V t = of_int i)"
| "consistent V (constructiveAddition t a b) =
     (V t = val a + val b \<and> consistent V a \<and> consistent V b)"
| "consistent V (constructiveMultiplication t a b) =
     (V t = val a * val b \<and> consistent V a \<and> consistent V b)"
| "consistent V (constructiveShift t r n) = (V t = val r * pow2 (sint n) \<and> consistent V r)"
| "consistent V (constructiveNegation t r) = (V t = - val r \<and> consistent V r)"
| "consistent V (named r nm) = consistent V r"
| "consistent V c = True"

text \<open>A bound on the exponent of node values: a value below \<open>2\<close> to the power \<open>2\<^sup>6\<^sup>1\<close> in
  magnitude has approximations whose bit length fits a Go \<^verbatim>\<open>int\<close> with room to spare.\<close>

definition sizeLimit :: int where
  "sizeLimit = 2 ^ 61"

text \<open>The tracker invariant: a valid tracker that holds an integer holds it at a valid
  precision, and the integer approximates the value of the node at that precision.\<close>

definition trackersOk :: "(addr \<Rightarrow> real) \<Rightarrow> heap \<Rightarrow> bool" where
  "trackersOk V h =
     (\<forall>t m. IsValid (trackers h t) \<and> MaxApproximation (trackers h t) = Some m \<longrightarrow>
        IsPrecisionValid (MinPrecision (trackers h t)) \<and>
        approximates (V t) (sint (MinPrecision (trackers h t))) m)"

text \<open>The tracker of a node is the one \<open>V\<close> describes.\<close>

definition rootOk :: "(addr \<Rightarrow> real) \<Rightarrow> Real \<Rightarrow> bool" where
  "rootOk V c = (\<forall>t. tracker c = Some t \<longrightarrow> V t = val c)"

text \<open>The contract of the method \<^verbatim>\<open>approximate\<close> and of the driver \<^verbatim>\<open>Approximate\<close> at a
  node: from a heap that satisfies the invariant, a call that returns leaves a heap
  that satisfies it, and an integer result approximates the value of the node.\<close>

definition methodOk :: "kernel \<Rightarrow> (addr \<Rightarrow> real) \<Rightarrow> Real \<Rightarrow> bool" where
  "methodOk K V c =
     (\<forall>p h r h'. trackersOk V h \<and> IsPrecisionValid p \<and> approximate K c p h = Inr (r, h') \<longrightarrow>
        trackersOk V h' \<and> (\<forall>a. r = Some a \<longrightarrow> approximates (val c) (sint p) a))"

definition driverOk :: "kernel \<Rightarrow> (addr \<Rightarrow> real) \<Rightarrow> Real \<Rightarrow> bool" where
  "driverOk K V c =
     (\<forall>p h r h'. trackersOk V h \<and> Approximate K c p h = Inr (r, h') \<longrightarrow>
        trackersOk V h' \<and>
        (\<forall>a. r = Some a \<longrightarrow> IsPrecisionValid p \<and> approximates (val c) (sint p) a))"

text \<open>The part of \<^verbatim>\<open>constructiveMultiplication.approximate\<close> that follows the search
  for a most significant digit \<open>ma\<close>, named so that it can be reasoned about on its
  own.\<close>

definition mulTail ::
  "kernel \<Rightarrow> Real \<Rightarrow> Real \<Rightarrow> goint \<Rightarrow> goint \<Rightarrow> heap \<Rightarrow> panic + (int option \<times> heap)" where
  "mulTail K a b p ma h2 =
     (let p2 = p - ma - 3 in
      case Approximate K b p2 h2 of
        Inl e \<Rightarrow> Inl e
      | Inr (None, h3) \<Rightarrow> Inl NilDereference
      | Inr (Some ib, h3) \<Rightarrow>
          if sgn ib = 0 then Inr (Some 0, h3)
          else
            (case knownMSD b h3 of
               Inl e \<Rightarrow> Inl e
             | Inr mb \<Rightarrow>
                 (let p1 = p - mb - 3 in
                  case Approximate K a p1 h3 of
                    Inl e \<Rightarrow> Inl e
                  | Inr (None, h4) \<Rightarrow> Inl NilDereference
                  | Inr (Some ia, h4) \<Rightarrow>
                      Inr (Some (scale (bigMul ia ib) (p1 + p2 - p)), h4))))"

text \<open>A magnitude \<open>m\<close> for every node: the value of the node is below \<open>2\<^sup>m\<close> in absolute
  value and is an integer multiple of \<open>2\<^sup>-\<^sup>m\<close>, so that a non-zero value is at least
  \<open>2\<^sup>-\<^sup>m\<close>. The most significant digit of a non-zero node then lies between \<open>-m\<close> and
  \<open>m\<close>.\<close>

definition dyadic :: "real \<Rightarrow> int \<Rightarrow> bool" where
  "dyadic x n = (\<exists>k :: int. x = of_int k * pow2 (- n))"

fun mag :: "Real \<Rightarrow> int" where
  "mag (constructiveInteger t i) = int (BitLen i)"
| "mag (constructiveAddition t a b) = max (mag a) (mag b) + 1"
| "mag (constructiveMultiplication t a b) = mag a + mag b"
| "mag (constructiveShift t r n) = mag r + \<bar>sint n\<bar>"
| "mag (constructiveNegation t r) = mag r"
| "mag (named r nm) = mag r"
| "mag c = 0"

text \<open>How far from the requested precision \<open>p\<close> the precisions lie that the evaluation of a
  node requests from the nodes below it: an addition asks its operands at \<open>p - 2\<close>, a
  shift by \<open>n\<close> at \<open>p - n\<close>, a multiplication at \<open>p/2 - 2\<close> and at \<open>p - msd - 3\<close> for a most
  significant digit \<open>msd\<close> of an operand. With \<open>|p| + need\<close> below \<open>2\<^sup>6\<^sup>0\<close>, every precision
  requested is valid.\<close>

fun need :: "Real \<Rightarrow> int" where
  "need (constructiveInteger t i) = 0"
| "need (constructiveAddition t a b) = max (need a) (need b) + 2"
| "need (constructiveMultiplication t a b) = max (need a) (need b) + max (mag a) (mag b) + 3"
| "need (constructiveShift t r n) = need r + \<bar>sint n\<bar>"
| "need (constructiveNegation t r) = need r"
| "need (named r nm) = need r"
| "need c = 0"

text \<open>No valid tracker holds nil.\<close>

definition trackersHold :: "heap \<Rightarrow> bool" where
  "trackersHold h = (\<forall>t. IsValid (trackers h t) \<longrightarrow> MaxApproximation (trackers h t) \<noteq> None)"

text \<open>The method \<^verbatim>\<open>approximate\<close> and the driver \<^verbatim>\<open>Approximate\<close> return an integer at a
  node, at every precision in range, and leave no nil in a valid tracker.\<close>

definition methodTotal :: "kernel \<Rightarrow> (addr \<Rightarrow> real) \<Rightarrow> Real \<Rightarrow> bool" where
  "methodTotal K V c =
     (\<forall>p h. trackersOk V h \<and> trackersHold h \<and> \<bar>sint p\<bar> + need c < 2 ^ 60 \<longrightarrow>
        (\<exists>a h'. approximate K c p h = Inr (Some a, h') \<and> trackersHold h'))"

definition driverTotal :: "kernel \<Rightarrow> (addr \<Rightarrow> real) \<Rightarrow> Real \<Rightarrow> bool" where
  "driverTotal K V c =
     (\<forall>p h. trackersOk V h \<and> trackersHold h \<and> \<bar>sint p\<bar> + need c < 2 ^ 60 \<longrightarrow>
        (\<exists>a h'. Approximate K c p h = Inr (Some a, h') \<and> trackersHold h'))"

section \<open>Word arithmetic without wrap-around\<close>

lemma word_xor_eq_0_iff: "(a :: 'a::len word) XOR b = 0 \<longleftrightarrow> a = b"
proof
  assume "a XOR b = 0"
  then have "(a XOR b) XOR b = b" by simp
  then show "a = b" by (simp add: xor.assoc)
qed simp

lemma div_eq_div_double:
  fixes x k :: int
  assumes "0 < k"
  shows "x div k = x div (2 * k) \<longleftrightarrow> - k \<le> x \<and> x < k"
proof -
  define q r where "q = x div k" and "r = x mod k"
  have x: "x = k * q + r" and r: "0 \<le> r" "r < k"
    using assms by (simp_all add: q_def r_def)
  have e: "x div (2 * k) = q div 2"
    by (simp add: zdiv_zmult2_eq mult.commute q_def)
  have "q = q div 2 \<longleftrightarrow> q = - 1 \<or> q = 0"
    by presburger
  also have "\<dots> \<longleftrightarrow> - k \<le> x \<and> x < k"
  proof
    assume "q = - 1 \<or> q = 0"
    then show "- k \<le> x \<and> x < k" using x r by auto
  next
    assume b: "- k \<le> x \<and> x < k"
    have "\<not> 1 \<le> q"
    proof
      assume "1 \<le> q"
      then have "k \<le> k * q" using assms mult_left_mono [of 1 q k] by simp
      then show False using x r b by linarith
    qed
    moreover have "\<not> q \<le> - 2"
    proof
      assume "q \<le> - 2"
      then have "k * q \<le> - 2 * k" using assms mult_left_mono [of q "- 2" k] by simp
      then show False using x r b by linarith
    qed
    ultimately show "q = - 1 \<or> q = 0" by linarith
  qed
  finally show ?thesis using e by (simp add: q_def)
qed

lemma sint_sub_no_wrap:
  fixes a b :: goint
  assumes "- (2 ^ 63) \<le> sint a - sint b" "sint a - sint b < 2 ^ 63"
  shows "sint (a - b) = sint a - sint b"
  using assms by (simp add: sint_word_ariths signed_take_bit_int_eq_self)

lemma sint_add_no_wrap:
  fixes a b :: goint
  assumes "- (2 ^ 63) \<le> sint a + sint b" "sint a + sint b < 2 ^ 63"
  shows "sint (a + b) = sint a + sint b"
  using assms by (simp add: sint_word_ariths signed_take_bit_int_eq_self)

lemma sint_neg_no_wrap:
  fixes a :: goint
  assumes "- (2 ^ 63) < sint a"
  shows "sint (- a) = - sint a"
  using assms sint_lt [of a] by (simp add: sint_word_ariths signed_take_bit_int_eq_self)

lemma unat_nonneg:
  fixes w :: goint
  assumes "0 \<le> sint w"
  shows "int (unat w) = sint w"
proof -
  have "sint w < 2 ^ 64" using sint_lt [of w] by simp
  then have "take_bit 64 (sint w) = sint w"
    using assms by (simp add: take_bit_int_eq_self)
  then show ?thesis using uint_sint [of w] by simp
qed

lemma unat_neg:
  fixes w :: goint
  assumes "sint w < 0"
  shows "int (unat (- w)) = - sint w"
proof -
  have "- w = word_of_int (- sint w)" by simp
  then have "uint (- w) = (- sint w) mod 2 ^ 64"
    using uint_word_of_int [of "- sint w", where 'a = 64] by simp
  moreover have "- sint w < 2 ^ 64" using sint_ge [of w] by simp
  ultimately show ?thesis using assms by simp
qed

section \<open>Precision validity\<close>

lemma IsPrecisionValid_range:
  "IsPrecisionValid p \<longleftrightarrow> - (2 ^ 60) \<le> sint p \<and> sint p < 2 ^ 60"
proof -
  have "IsPrecisionValid p \<longleftrightarrow> signed_drop_bit 60 p = signed_drop_bit 61 p"
    by (simp add: IsPrecisionValid_def IsIntWithinBitTolerance_def IntSize_def Let_def
        word_xor_eq_0_iff)
  also have "\<dots> \<longleftrightarrow> sint (signed_drop_bit 60 p) = sint (signed_drop_bit 61 p)"
    by (auto intro: signed_word_eqI)
  also have "\<dots> \<longleftrightarrow> sint p div 2 ^ 60 = sint p div (2 * 2 ^ 60)"
    by (simp add: sint_signed_drop_bit_eq drop_bit_eq_div)
  also have "\<dots> \<longleftrightarrow> - (2 ^ 60) \<le> sint p \<and> sint p < 2 ^ 60"
    by (rule div_eq_div_double) simp
  finally show ?thesis .
qed

lemma top_bits:
  "IsIntWithinBitTolerance v t \<longleftrightarrow>
     (bit v 60 = bit v 61 \<and> bit v 61 = bit v 62 \<and> bit v 62 = bit v 63)"
proof -
  have "IsIntWithinBitTolerance v t \<longleftrightarrow> signed_drop_bit 60 v = signed_drop_bit 61 v"
    by (simp add: IsIntWithinBitTolerance_def IntSize_def Let_def word_xor_eq_0_iff)
  also have "\<dots> \<longleftrightarrow> (\<forall>n<64. bit (signed_drop_bit 60 v) n = bit (signed_drop_bit 61 v) n)"
    by (auto simp: bit_eq_iff dest: bit_imp_le_length)
  also have "\<dots> \<longleftrightarrow> (bit v 60 = bit v 61 \<and> bit v 61 = bit v 62 \<and> bit v 62 = bit v 63)"
    (is "?L \<longleftrightarrow> ?R")
  proof
    assume L: ?L
    from L[rule_format, of 0] L[rule_format, of 1] L[rule_format, of 2]
    show ?R by (simp add: bit_signed_drop_bit_iff)
  next
    assume R: ?R
    show ?L
    proof (intro allI impI)
      fix n :: nat assume "n < 64"
      then consider "n = 0" | "n = 1" | "n = 2" | "n = 3" | "4 \<le> n" by linarith
      then show "bit (signed_drop_bit 60 v) n = bit (signed_drop_bit 61 v) n"
        using R \<open>n < 64\<close> by cases (auto simp: bit_signed_drop_bit_iff)
    qed
  qed
  finally show ?thesis .
qed

text \<open>
  Claim C9. \<^verbatim>\<open>IsIntWithinBitTolerance(value, tolerance)\<close> does not depend on
  \<open>tolerance\<close>: for any two tolerances the results agree, and the result is the fixed
  test that bits 60 to 63 of the value (its top four bits) are all equal.
\<close>

theorem tolerance_ignored:
  "IsIntWithinBitTolerance v t1 = IsIntWithinBitTolerance v t2 \<and>
   IsIntWithinBitTolerance v t1 =
     (bit v 60 = bit v 61 \<and> bit v 61 = bit v 62 \<and> bit v 62 = bit v 63)"
  using top_bits [of v t1] top_bits [of v t2] by simp

text \<open>
  Claim C5. \<^verbatim>\<open>IsPrecisionValid(p)\<close> holds exactly when the top four bits of \<open>p\<close>
  are all equal (all 0 or all 1), and at an invalid precision \<^verbatim>\<open>Approximate\<close> returns
  nil and leaves the heap as it was, whatever the node (nil included), the kernels and
  the trackers are: neither the tracker nor the node is consulted.
\<close>

theorem invalid_precision_unknown:
  "(IsPrecisionValid p \<longleftrightarrow>
      (bit p 60 = bit p 61 \<and> bit p 61 = bit p 62 \<and> bit p 62 = bit p 63)) \<and>
   (\<not> IsPrecisionValid p \<longrightarrow> Approximate K c p h = Inr (None, h))"
  using top_bits [of p 4] by (simp add: IsPrecisionValid_def Approximate.simps)

text \<open>Instance of C5 at the smallest invalid positive precision, \<open>2\<^sup>6\<^sup>0\<close>.\<close>

theorem invalid_precision_unknown_witness:
  "\<not> IsPrecisionValid (2 ^ 60) \<and>
   Approximate noKernel (constructiveInteger 0 7) (2 ^ 60) emptyHeap = Inr (None, emptyHeap)"
  using invalid_precision_unknown [of "2 ^ 60" noKernel "constructiveInteger 0 7" emptyHeap]
  by (simp add: IsPrecisionValid_range)

section \<open>scale\<close>

lemma scale_neg_div:
  assumes "sint n < 0"
  shows "scale i n = (i + 2 ^ (nat (- sint n) - 1)) div 2 ^ nat (- sint n)"
proof -
  define k where "k = nat (- sint n)"
  have k: "0 < k" using assms by (simp add: k_def)
  have n1: "sint (n + 1) = sint n + 1"
    using assms sint_ge [of n] by (simp add: sint_add_no_wrap)
  have nneg: "\<not> 0 \<le>s n" using assms by (simp add: word_sle_eq)
  have half: "(j + 1) div 2 = (j * 2 ^ (k - 1) + 2 ^ (k - 1)) div 2 ^ k" for j :: int
  proof -
    have "2 ^ k = (2::int) ^ (k - 1) * 2" using k by (cases k) simp_all
    then have "(j * 2 ^ (k - 1) + 2 ^ (k - 1)) div 2 ^ k = ((j + 1) * 2 ^ (k - 1)) div (2 ^ (k - 1) * 2)"
      by (simp add: algebra_simps)
    also have "\<dots> = ((j + 1) * 2 ^ (k - 1) div 2 ^ (k - 1)) div 2"
      by (simp add: zdiv_zmult2_eq)
    finally show ?thesis by simp
  qed
  have shift: "(i div 2 ^ (k - 1) + 1) div 2 = (i + 2 ^ (k - 1)) div 2 ^ k"
  proof -
    have "(i div 2 ^ (k - 1) + 1) div 2 = ((i + 2 ^ (k - 1)) div 2 ^ (k - 1)) div 2"
      by simp
    also have "\<dots> = (i + 2 ^ (k - 1)) div (2 ^ (k - 1) * 2)"
      by (simp add: zdiv_zmult2_eq)
    also have "(2::int) ^ (k - 1) * 2 = 2 ^ k" using k by (cases k) simp_all
    finally show ?thesis .
  qed
  show ?thesis
  proof (cases "sint n = - 1")
    case True
    then have "n + 1 = 0" using n1 by (intro signed_word_eqI) simp
    moreover have "k = 1" using True by (simp add: k_def)
    ultimately show ?thesis using nneg
      by (simp add: scale_def signedShift_def bigRsh_def bigAdd_def drop_bit_eq_div flip: k_def)
  next
    case False
    then have lt: "sint (n + 1) < 0" using n1 assms by simp
    then have "n + 1 <s 0" by (simp add: word_sless_alt)
    moreover have "unat (- (n + 1)) = k - 1"
    proof -
      have "unat (- (n + 1)) = nat (- sint (n + 1))"
        using unat_neg [OF lt] by (metis nat_int)
      also have "\<dots> = k - 1" unfolding n1 k_def by linarith
      finally show ?thesis .
    qed
    ultimately show ?thesis using nneg shift
      by (simp add: scale_def signedShift_def bigRsh_def bigAdd_def drop_bit_eq_div flip: k_def)
  qed
qed

lemma scale_neg_floor:
  assumes "sint n < 0"
  shows "scale i n = \<lfloor>of_int i * 2 powi (sint n) + 1 / 2 :: real\<rfloor>"
proof -
  define k where "k = nat (- sint n)"
  have k: "0 < k" using assms by (simp add: k_def)
  have p: "(2::real) powi (sint n) = 1 / 2 ^ k"
    using assms by (simp add: power_int_def k_def field_simps)
  have h: "(2::real) ^ k = 2 * 2 ^ (k - 1)" using k by (cases k) simp_all
  have "of_int i * 2 powi (sint n) + 1 / 2 = (of_int (i + 2 ^ (k - 1)) :: real) / of_int (2 ^ k)"
    by (simp add: p h field_simps)
  then have "\<lfloor>of_int i * 2 powi (sint n) + 1 / 2 :: real\<rfloor> = (i + 2 ^ (k - 1)) div 2 ^ k"
    by (simp only: floor_divide_of_int_eq)
  then show ?thesis using scale_neg_div [OF assms] by (simp add: k_def)
qed

text \<open>
  Claim C3, as stated, fails: at \<open>i = -1\<close>, \<open>n = -1\<close> the exact value is \<open>-1/2\<close>, a tie;
  rounding half away from zero gives \<open>-1\<close>, while \<^verbatim>\<open>scale\<close> returns \<open>0\<close>.
\<close>

theorem scale_half_away_counterexample:
  "scale (- 1) (- 1) = 0 \<and> roundHalfAway (of_int (- 1) * 2 powi (sint (- 1 :: goint))) = - 1"
  by (simp add: scale_def signedShift_def bigRsh_def bigAdd_def roundHalfAway_def word_sle_eq)

text \<open>
  Claim C3, amended. For every integer \<open>i\<close> and every \<open>n < 0\<close>, \<^verbatim>\<open>scale(i, n)\<close> is
  \<open>\<lfloor>i \<cdot> 2\<^sup>n + 1/2\<rfloor>\<close>: the nearest integer, with ties rounded up (towards plus
  infinity). For \<open>i \<ge> 0\<close> this is rounding half away from zero.
\<close>

theorem scale_rounds_half_up:
  "sint n < 0 \<Longrightarrow>
     scale i n = \<lfloor>of_int i * 2 powi (sint n) + 1 / 2 :: real\<rfloor> \<and>
     (0 \<le> i \<longrightarrow> scale i n = roundHalfAway (of_int i * 2 powi (sint n)))"
proof -
  assume n: "sint n < 0"
  have "0 \<le> i \<Longrightarrow> \<not> (of_int i * 2 powi (sint n) < (0::real))"
    by (simp add: not_less)
  then show ?thesis using scale_neg_floor [OF n, of i] by (auto simp: roundHalfAway_def)
qed

text \<open>Instance of the amended C3: \<open>scale(5, -3) = 1\<close>.\<close>

theorem scale_rounds_half_up_witness:
  "sint (- 3 :: goint) < 0 \<and> (0::int) \<le> 5 \<and>
   scale 5 (- 3) = \<lfloor>of_int 5 * 2 powi (sint (- 3 :: goint)) + 1 / 2 :: real\<rfloor> \<and>
   scale 5 (- 3) = roundHalfAway (of_int 5 * 2 powi (sint (- 3 :: goint)))"
  using scale_rounds_half_up [of "- 3" 5] by simp

section \<open>Precision tracker\<close>

text \<open>
  Claim C6, as stated, fails when the cached approximation is nil. After \<^verbatim>\<open>Set(0, nil)\<close> the
  tracker is valid with \<open>MinPrecision = 0\<close>, yet \<^verbatim>\<open>Get(0)\<close> does not report a hit: it calls
  \<^verbatim>\<open>scale(nil, 0)\<close>, which dereferences nil and panics. The program reaches this state:
  \<^verbatim>\<open>Approximate\<close> of \<^verbatim>\<open>ShiftLeft(FromInt(1), 2\<^sup>6\<^sup>0 - 1)\<close> at precision \<open>-2\<^sup>6\<^sup>0\<close> is nil and
  is stored by \<^verbatim>\<open>Set\<close>, and the next \<^verbatim>\<open>Approximate\<close> of that node at precision \<open>0\<close> panics
  inside \<^verbatim>\<open>Get\<close>.
\<close>

theorem tracker_nil_counterexample:
  "sint (0 :: goint) \<le> sint (0 :: goint) \<and>
   Get (snd (Set zeroTracker 0 None)) 0 = Inl NilDereference \<and>
   IsPrecisionValid (- (2 ^ 60)) \<and> IsPrecisionValid 0 \<and>
   (case FromInt 1 emptyHeap of
      (x, h1) \<Rightarrow>
        (case ShiftLeft x (2 ^ 60 - 1) h1 of
           (r, h2) \<Rightarrow>
             (case Approximate noKernel r (- (2 ^ 60)) h2 of
                Inl e \<Rightarrow> None
              | Inr (s, h3) \<Rightarrow>
                  Some (s, trackers h3 1, map_sum id fst (Approximate noKernel r 0 h3))))) =
     Some (None, \<lparr>IsValid = True, MaxApproximation = None, MinPrecision = - (2 ^ 60)\<rparr>,
           Inl NilDereference)"
  by code_simp

text \<open>
  Claim C6, amended. \<^verbatim>\<open>Get(p)\<close> reports a hit exactly when the tracker is valid,
  \<open>p \<ge> MinPrecision\<close> (signed) and \<^verbatim>\<open>MaxApproximation\<close> is not nil, and then returns
  \<^verbatim>\<open>scale(MaxApproximation, MinPrecision - p)\<close>; when the tracker is valid and
  \<open>p \<ge> MinPrecision\<close> but \<^verbatim>\<open>MaxApproximation\<close> is nil, \<^verbatim>\<open>Get(p)\<close> panics with a nil
  dereference; otherwise it reports a miss with a nil value. \<^verbatim>\<open>Set(q, v)\<close> overwrites the
  single entry with \<open>(true, v, q)\<close> and returns \<open>v\<close>, for every \<open>v\<close>, nil included. After
  \<^verbatim>\<open>Set(q, v)\<close>, \<^verbatim>\<open>Get(p)\<close> misses for every \<open>p < q\<close>; for every \<open>p \<ge> q\<close> it hits with
  \<^verbatim>\<open>scale(v, q - p)\<close> when \<open>v\<close> is an integer and panics when \<open>v\<close> is nil.
\<close>

theorem tracker_get_set:
  "((\<exists>r. Get t p = Inr (r, True)) \<longleftrightarrow>
      IsValid t \<and> sint (MinPrecision t) \<le> sint p \<and> MaxApproximation t \<noteq> None) \<and>
   (IsValid t \<and> sint (MinPrecision t) \<le> sint p \<and> MaxApproximation t = Some m \<longrightarrow>
      Get t p = Inr (Some (scale m (MinPrecision t - p)), True)) \<and>
   (IsValid t \<and> sint (MinPrecision t) \<le> sint p \<and> MaxApproximation t = None \<longrightarrow>
      Get t p = Inl NilDereference) \<and>
   (\<not> (IsValid t \<and> sint (MinPrecision t) \<le> sint p) \<longrightarrow> Get t p = Inr (None, False)) \<and>
   Set t q v = (v, \<lparr>IsValid = True, MaxApproximation = v, MinPrecision = q\<rparr>) \<and>
   (sint q \<le> sint p \<longrightarrow> Get (snd (Set t q (Some i))) p = Inr (Some (scale i (q - p)), True)) \<and>
   (sint q \<le> sint p \<longrightarrow> Get (snd (Set t q None)) p = Inl NilDereference) \<and>
   (sint p < sint q \<longrightarrow> Get (snd (Set t q v)) p = Inr (None, False))"
  by (auto simp: Get_def Set_def word_sle_eq split: option.splits if_splits)

text \<open>
  Instances of the amended C6 with the entries \<open>(-3, 8)\<close> and \<open>(-3, nil)\<close>, read at
  precisions \<open>0\<close> and \<open>-5\<close>, and with the invalid tracker.
\<close>

theorem tracker_get_set_witness:
  "sint (- 3 :: goint) \<le> sint (0 :: goint) \<and>
   sint (- 5 :: goint) < sint (- 3 :: goint) \<and>
   Get \<lparr>IsValid = True, MaxApproximation = Some 8, MinPrecision = - 3\<rparr> 0 = Inr (Some 1, True) \<and>
   Get \<lparr>IsValid = True, MaxApproximation = None, MinPrecision = - 3\<rparr> 0 = Inl NilDereference \<and>
   Get \<lparr>IsValid = True, MaxApproximation = Some 8, MinPrecision = - 3\<rparr> (- 5) = Inr (None, False) \<and>
   Get zeroTracker 0 = Inr (None, False) \<and>
   Set zeroTracker (- 3) (Some 8) =
     (Some 8, \<lparr>IsValid = True, MaxApproximation = Some 8, MinPrecision = - 3\<rparr>) \<and>
   Get (snd (Set zeroTracker (- 3) (Some 8))) 0 = Inr (Some 1, True) \<and>
   Get (snd (Set zeroTracker (- 3) None)) 0 = Inl NilDereference \<and>
   Get (snd (Set zeroTracker (- 3) (Some 8))) (- 5) = Inr (None, False)"
proof -
  have s: "scale 8 (- 3 - 0) = 1"
    by (simp add: scale_def signedShift_def bigRsh_def bigAdd_def word_sle_eq word_sless_alt)
  have o: "sint (- 3 :: goint) \<le> sint (0 :: goint)" "sint (- 5 :: goint) < sint (- 3 :: goint)"
    "\<not> sint (- 3 :: goint) \<le> sint (- 5 :: goint)"
    by simp_all
  note a = tracker_get_set [where t = "\<lparr>IsValid = True, MaxApproximation = Some 8, MinPrecision = - 3\<rparr>"
      and p = 0 and m = 8 and q = "- 3" and v = "Some 8" and i = 8]
  note b = tracker_get_set [where t = "\<lparr>IsValid = True, MaxApproximation = None, MinPrecision = - 3\<rparr>"
      and p = 0 and m = 8 and q = "- 3" and v = "Some 8" and i = 8]
  note c = tracker_get_set [where t = "\<lparr>IsValid = True, MaxApproximation = Some 8, MinPrecision = - 3\<rparr>"
      and p = "- 5" and m = 8 and q = "- 3" and v = "Some 8" and i = 8]
  note d = tracker_get_set [where t = zeroTracker
      and p = 0 and m = 8 and q = "- 3" and v = "Some 8" and i = 8]
  show ?thesis using a b c d s o by (simp add: zeroTracker_def)
qed


section \<open>Continued fractions\<close>

lemma fst_alloc [simp]: "fst (alloc h) = brk h"
  by (simp add: alloc_def)

lemma val_FromInt64: "val (fst (FromInt64 x h)) = of_int (sint x)"
  by (simp add: FromInt64_def newInteger_def split: prod.splits)

lemma val_Inverse: "val (fst (Inverse c h)) = inverse (val c)"
  by (simp add: Inverse_def newMultiplicativeInverse_def split: prod.splits)

lemma val_Add: "val (fst (Add a b h)) = val a + val b"
  by (simp add: Add_def newAddition_def split: prod.splits)

lemma cfValue_snoc2: "cfValue (ys @ [x, v]) = cfValue (ys @ [x + inverse v])"
proof (induction ys)
  case Nil
  show ?case by simp
next
  case (Cons y ys)
  then show ?case by (cases ys) simp_all
qed

lemma val_cfLoop:
  "i \<le> length fracs \<Longrightarrow>
     val (fst (cfLoop fracs i c h)) = cfValue (map val (take i fracs) @ [val c])"
proof (induction i arbitrary: c h)
  case 0
  show ?case by simp
next
  case (Suc i)
  obtain ic h1 where ic: "Inverse c h = (ic, h1)" by (cases "Inverse c h")
  obtain c' h2 where c': "Add (fracs ! i) ic h1 = (c', h2)" by (cases "Add (fracs ! i) ic h1")
  have vic: "val ic = inverse (val c)" by (metis val_Inverse ic fst_conv)
  have vc': "val c' = val (fracs ! i) + inverse (val c)"
    by (metis val_Add c' vic fst_conv)
  have "val (fst (cfLoop fracs (Suc i) c h)) = val (fst (cfLoop fracs i c' h2))"
    by (simp add: ic c')
  also have "\<dots> = cfValue (map val (take i fracs) @ [val c'])"
    using Suc by simp
  also have "\<dots> = cfValue (map val (take i fracs) @ [val (fracs ! i), val c])"
    by (simp add: vc' cfValue_snoc2)
  also have "\<dots> = cfValue (map val (take (Suc i) fracs) @ [val c])"
    using Suc.prems by (simp add: take_Suc_conv_app_nth)
  finally show ?case .
qed

lemma val_cf64Loop:
  "i \<le> length fracs \<Longrightarrow>
     val (fst (cf64Loop fracs i c h)) =
       cfValue (map (\<lambda>x. of_int (sint x)) (take i fracs) @ [val c])"
proof (induction i arbitrary: c h)
  case 0
  show ?case by simp
next
  case (Suc i)
  obtain x h1 where x: "FromInt64 (fracs ! i) h = (x, h1)" by (cases "FromInt64 (fracs ! i) h")
  obtain ic h2 where ic: "Inverse c h1 = (ic, h2)" by (cases "Inverse c h1")
  obtain c' h3 where c': "Add x ic h2 = (c', h3)" by (cases "Add x ic h2")
  have vx: "val x = of_int (sint (fracs ! i))" by (metis val_FromInt64 x fst_conv)
  have vic: "val ic = inverse (val c)" by (metis val_Inverse ic fst_conv)
  have vc': "val c' = of_int (sint (fracs ! i)) + inverse (val c)"
    by (metis val_Add c' vic vx fst_conv)
  have "val (fst (cf64Loop fracs (Suc i) c h)) = val (fst (cf64Loop fracs i c' h3))"
    by (simp add: x ic c')
  also have "\<dots> = cfValue (map (\<lambda>x. of_int (sint x)) (take i fracs) @ [val c'])"
    using Suc by simp
  also have "\<dots> = cfValue (map (\<lambda>x. of_int (sint x)) (take i fracs)
                       @ [of_int (sint (fracs ! i)), val c])"
    by (simp add: vc' cfValue_snoc2)
  also have "\<dots> = cfValue (map (\<lambda>x. of_int (sint x)) (take (Suc i) fracs) @ [val c])"
    using Suc.prems by (simp add: take_Suc_conv_app_nth)
  finally show ?case .
qed

lemma take_butlast_nth: "xs \<noteq> [] \<Longrightarrow> take (length xs - 1) xs @ [xs ! (length xs - 1)] = xs"
  by (metis Suc_diff_1 length_greater_0_conv lessI take_Suc_conv_app_nth take_all order_refl)

lemma val_ContinuedFraction:
  assumes "fracs \<noteq> []"
  shows "val (fst (ContinuedFraction fracs h)) = cfValue (map val fracs)"
proof -
  let ?n = "length fracs - 1"
  have "val (fst (ContinuedFraction fracs h)) =
          cfValue (map val (take ?n fracs) @ [val (fracs ! ?n)])"
    using assms by (simp add: ContinuedFraction_def val_cfLoop)
  also have "\<dots> = cfValue (map val (take ?n fracs @ [fracs ! ?n]))" by simp
  also have "\<dots> = cfValue (map val fracs)" by (simp only: take_butlast_nth [OF assms])
  finally show ?thesis .
qed

lemma val_ContinuedFraction64:
  assumes "fracs \<noteq> []"
  shows "val (fst (ContinuedFraction64 fracs h)) = cfValue (map (\<lambda>x. of_int (sint x)) fracs)"
proof -
  let ?n = "length fracs - 1"
  obtain c h1 where c: "FromInt64 (fracs ! ?n) h = (c, h1)" by (cases "FromInt64 (fracs ! ?n) h")
  have vc: "val c = of_int (sint (fracs ! ?n))" by (metis val_FromInt64 c fst_conv)
  have "val (fst (ContinuedFraction64 fracs h)) =
          cfValue (map (\<lambda>x. of_int (sint x)) (take ?n fracs) @ [val c])"
    using assms c by (simp add: ContinuedFraction64_def val_cf64Loop)
  also have "\<dots> = cfValue (map (\<lambda>x. of_int (sint x)) (take ?n fracs @ [fracs ! ?n]))"
    by (simp add: vc)
  also have "\<dots> = cfValue (map (\<lambda>x. of_int (sint x)) fracs)"
    by (simp only: take_butlast_nth [OF assms])
  finally show ?thesis .
qed

lemma Zero_fresh:
  "onceZero h = None \<Longrightarrow> fst (Zero h) = named (constructiveInteger (brk h) 0) ''0''"
  by (simp add: Zero_def FromInt_def FromInt64_def newInteger_def newNamed_def alloc_def)

text \<open>
  Claim C10. On an empty slice \<^verbatim>\<open>ContinuedFraction64\<close> and \<^verbatim>\<open>ContinuedFraction\<close> return
  what \<^verbatim>\<open>Zero()\<close> returns: the cached constant when it exists, and otherwise the
  freshly built \<^verbatim>\<open>Named("0", Int(0))\<close>; neither is nil, and the model has no failing
  branch. On a non-empty slice the loop folds from the last element with
  \<open>c \<leftarrow> fracs[i] + 1/c\<close>, so the value of the result is the continued fraction of
  the values of the elements.
\<close>

theorem continued_fraction:
  "ContinuedFraction64 [] h = Zero h \<and> ContinuedFraction [] h = Zero h \<and>
   (onceZero h = None \<longrightarrow> fst (Zero h) = named (constructiveInteger (brk h) 0) ''0'') \<and>
   (onceZero h = Some z \<longrightarrow> Zero h = (z, h)) \<and>
   (fracs64 \<noteq> [] \<longrightarrow>
      val (fst (ContinuedFraction64 fracs64 h)) = cfValue (map (\<lambda>x. of_int (sint x)) fracs64)) \<and>
   (fracs \<noteq> [] \<longrightarrow> val (fst (ContinuedFraction fracs h)) = cfValue (map val fracs))"
  using Zero_fresh [of h] val_ContinuedFraction64 [of fracs64 h] val_ContinuedFraction [of fracs h]
  by (simp add: ContinuedFraction64_def ContinuedFraction_def Zero_def)

text \<open>
  Instance of C10: the empty slice on a heap with and without a cached zero, and
  \<open>[2; 1, 3, 4] = 47/17\<close> for both functions.
\<close>

theorem continued_fraction_witness:
  "onceZero emptyHeap = None \<and>
   onceZero (emptyHeap\<lparr>onceZero := Some (named (constructiveInteger 0 0) ''0'')\<rparr>)
     = Some (named (constructiveInteger 0 0) ''0'') \<and>
   [2, 1, 3, 4 :: goint] \<noteq> [] \<and>
   [constructiveInteger 0 2, constructiveInteger 1 1, constructiveInteger 2 3,
      constructiveInteger 3 4] \<noteq> [] \<and>
   fst (ContinuedFraction64 [] emptyHeap) = named (constructiveInteger 0 0) ''0'' \<and>
   ContinuedFraction []
       (emptyHeap\<lparr>onceZero := Some (named (constructiveInteger 0 0) ''0'')\<rparr>)
     = (named (constructiveInteger 0 0) ''0'',
        emptyHeap\<lparr>onceZero := Some (named (constructiveInteger 0 0) ''0'')\<rparr>) \<and>
   val (fst (ContinuedFraction64 [2, 1, 3, 4] emptyHeap)) = 47 / 17 \<and>
   val (fst (ContinuedFraction
              [constructiveInteger 0 2, constructiveInteger 1 1, constructiveInteger 2 3,
               constructiveInteger 3 4] emptyHeap)) = 47 / 17"
  using continued_fraction [of emptyHeap "named (constructiveInteger 0 0) ''0''" "[2, 1, 3, 4]"
      "[constructiveInteger 0 2, constructiveInteger 1 1, constructiveInteger 2 3,
        constructiveInteger 3 4]"]
    continued_fraction [of "emptyHeap\<lparr>onceZero := Some (named (constructiveInteger 0 0) ''0'')\<rparr>"
      "named (constructiveInteger 0 0) ''0''" "[2, 1, 3, 4]"
      "[constructiveInteger 0 2, constructiveInteger 1 1, constructiveInteger 2 3,
        constructiveInteger 3 4]"]
  by (simp add: emptyHeap_def)


section \<open>Comparison\<close>

lemma sint_word_of_int:
  assumes "- (2 ^ 63) \<le> x" "x < 2 ^ 63"
  shows "sint (word_of_int x :: goint) = x"
  using assms by (simp add: sint_sbintrunc' signed_take_bit_int_eq_self)

lemma sint_cmp_precision:
  assumes "k \<le> 56"
  shows "sint (- 20 * 2 ^ k :: goint) = - 20 * 2 ^ k"
proof -
  have "(2::int) ^ k \<le> 2 ^ 56" using assms by (intro power_increasing) auto
  moreover have p: "0 < (2::int) ^ k" by simp
  ultimately have b: "- (2 ^ 63) \<le> (- 20 * 2 ^ k :: int)" "(- 20 * 2 ^ k :: int) < 2 ^ 63"
    by (simp_all, insert p, linarith)
  have "(- 20 * 2 ^ k :: goint) = word_of_int (- 20 * 2 ^ k)" by simp
  then show ?thesis using sint_word_of_int [OF b] by simp
qed

lemma cmp_precision_valid:
  assumes "k \<le> 56"
  shows "IsPrecisionValid (- 20 * 2 ^ k) \<longleftrightarrow> k < 56"
proof (cases "k < 56")
  case True
  then have "(2::int) ^ k \<le> 2 ^ 55" by (intro power_increasing) auto
  moreover have p: "0 < (2::int) ^ k" by simp
  ultimately show ?thesis using True sint_cmp_precision [OF assms]
    by (simp add: IsPrecisionValid_range, insert p, linarith)
next
  case False
  then have "k = 56" using assms by simp
  then show ?thesis
    using sint_cmp_precision [of 56] by (simp add: IsPrecisionValid_range)
qed

lemma CmpLoop_cmpOver:
  "k \<le> 56 \<Longrightarrow>
     CmpLoop K a b (- 20 * 2 ^ k) h =
       Some (cmpOver K a b (map (\<lambda>j. - 20 * 2 ^ j) [k..<56]) h)"
proof (induction "56 - k" arbitrary: k h)
  case 0
  then have k: "k = 56" by simp
  have "\<not> IsPrecisionValid (- 20 * 2 ^ k)" using cmp_precision_valid [of k] k by simp
  then show ?case using k by (subst CmpLoop.simps) simp
next
  case (Suc n)
  then have k: "k < 56" by simp
  have v: "IsPrecisionValid (- 20 * 2 ^ k)" using cmp_precision_valid [of k] k by simp
  have l: "[k..<56] = k # [Suc k..<56]" using k by (simp add: upt_conv_Cons)
  have d: "(- 20 * 2 ^ k :: goint) * 2 = - 20 * 2 ^ Suc k" by simp
  have ih: "CmpLoop K a b (- 20 * 2 ^ Suc k) h' =
       Some (cmpOver K a b (map (\<lambda>j. - 20 * 2 ^ j) [Suc k..<56]) h')" for h'
    using Suc.hyps(1) [of "Suc k" h'] Suc.hyps(2) k by simp
  show ?case
    apply (subst CmpLoop.simps)
    apply (simp only: v l d ih list.map cmpOver.simps)
    apply (simp split: sum.splits prod.splits)
    done
qed

text \<open>
  Claim C7. \<^verbatim>\<open>PreciseCmp(a, b, p)\<close> asks for both approximations at \<open>p - 1\<close>, first \<open>a\<close> then
  \<open>b\<close>, and answers \<open>1\<close> exactly when the approximation of \<open>a\<close> exceeds that of \<open>b\<close> by
  more than 1, \<open>-1\<close> exactly in the symmetric case, and \<open>0\<close> otherwise, including when
  an approximation is nil. \<^verbatim>\<open>Cmp(a, b)\<close>, whose precision doubles in a wrapping 64-bit
  \<^verbatim>\<open>int\<close>, always returns: it is \<^verbatim>\<open>PreciseCmp\<close> run over \<open>-20, -40, \<dots>, -20 \<cdot> 2\<^sup>5\<^sup>5\<close>,
  stopping at the first non-zero answer, and \<open>0\<close> after the last one, when
  \<open>-20 \<cdot> 2\<^sup>5\<^sup>6\<close> is invalid.
\<close>

theorem compare_doubling:
  "(a \<noteq> Nil \<and> b \<noteq> Nil \<and>
    Approximate K a (p - 1) h = Inr (ia, h1) \<and> Approximate K b (p - 1) h1 = Inr (ib, h2) \<longrightarrow>
      (\<exists>v. PreciseCmp K a b p h = Inr (v, h2) \<and>
         (v = 1 \<longleftrightarrow> (\<exists>x y. ia = Some x \<and> ib = Some y \<and> 1 < x - y)) \<and>
         (v = - 1 \<longleftrightarrow> (\<exists>x y. ia = Some x \<and> ib = Some y \<and> 1 < y - x)) \<and>
         (v = 0 \<longleftrightarrow> \<not> (\<exists>x y. ia = Some x \<and> ib = Some y \<and> 1 < \<bar>x - y\<bar>)))) \<and>
   Cmp K a b h = Some (cmpOver K a b cmpPrecisions h)"
proof -
  have "Cmp K a b h = Some (cmpOver K a b cmpPrecisions h)"
    using CmpLoop_cmpOver [of 0 K a b h] by (simp add: Cmp_def cmpPrecisions_def)
  then show ?thesis
    by (auto simp: PreciseCmp_def bigAdd_def bigSub_def split: option.splits)
qed

lemma tracker_overwrite:
  "(t :: precisionTracker)\<lparr>IsValid := a, MaxApproximation := b, MinPrecision := c\<rparr> =
     \<lparr>IsValid = a, MaxApproximation = b, MinPrecision = c\<rparr>"
  by (cases t) simp

lemma Approximate_fresh_integer:
  assumes "IsPrecisionValid p" "\<not> IsValid (trackers h t)"
  shows "Approximate K (constructiveInteger t i) p h =
     Inr (Some (scale i (- p)),
          h\<lparr>trackers := (trackers h)
               (t := \<lparr>IsValid = True, MaxApproximation = Some (scale i (- p)), MinPrecision = p\<rparr>)\<rparr>)"
  using assms by (simp add: Approximate.simps Get_def Set_def tracker_overwrite)

text \<open>
  Instance of C7: comparing the integers 1 and 5 at precision \<open>-2\<close> gives \<open>-1\<close>.
\<close>

theorem compare_doubling_witness:
  "constructiveInteger 0 1 \<noteq> Nil \<and> constructiveInteger 1 5 \<noteq> Nil \<and>
   Approximate noKernel (constructiveInteger 0 1) (- 2 - 1) emptyHeap =
     Inr (Some 8, emptyHeap\<lparr>trackers := (trackers emptyHeap)
            (0 := \<lparr>IsValid = True, MaxApproximation = Some 8, MinPrecision = - 3\<rparr>)\<rparr>) \<and>
   Approximate noKernel (constructiveInteger 1 5) (- 2 - 1)
      (emptyHeap\<lparr>trackers := (trackers emptyHeap)
            (0 := \<lparr>IsValid = True, MaxApproximation = Some 8, MinPrecision = - 3\<rparr>)\<rparr>) =
     Inr (Some 40, emptyHeap\<lparr>trackers := (trackers emptyHeap)
            (0 := \<lparr>IsValid = True, MaxApproximation = Some 8, MinPrecision = - 3\<rparr>,
             1 := \<lparr>IsValid = True, MaxApproximation = Some 40, MinPrecision = - 3\<rparr>)\<rparr>) \<and>
   PreciseCmp noKernel (constructiveInteger 0 1) (constructiveInteger 1 5) (- 2) emptyHeap =
     Inr (- 1, emptyHeap\<lparr>trackers := (trackers emptyHeap)
            (0 := \<lparr>IsValid = True, MaxApproximation = Some 8, MinPrecision = - 3\<rparr>,
             1 := \<lparr>IsValid = True, MaxApproximation = Some 40, MinPrecision = - 3\<rparr>)\<rparr>) \<and>
   Cmp noKernel (constructiveInteger 0 1) (constructiveInteger 1 5) emptyHeap =
     Some (cmpOver noKernel (constructiveInteger 0 1) (constructiveInteger 1 5) cmpPrecisions
             emptyHeap)"
proof -
  have v: "IsPrecisionValid (- 3)" by (simp add: IsPrecisionValid_range)
  have s1: "scale 1 (- (- 3)) = 8" "scale 5 (- (- 3)) = 40"
    by (simp_all add: scale_def bigLsh_def word_sle_eq)
  have a: "Approximate noKernel (constructiveInteger 0 1) (- 2 - 1) emptyHeap =
     Inr (Some 8, emptyHeap\<lparr>trackers := (trackers emptyHeap)
            (0 := \<lparr>IsValid = True, MaxApproximation = Some 8, MinPrecision = - 3\<rparr>)\<rparr>)"
    using Approximate_fresh_integer [of "- 3" emptyHeap 0 noKernel 1] v s1
    by (simp add: emptyHeap_def zeroTracker_def)
  have b: "Approximate noKernel (constructiveInteger 1 5) (- 2 - 1)
      (emptyHeap\<lparr>trackers := (trackers emptyHeap)
            (0 := \<lparr>IsValid = True, MaxApproximation = Some 8, MinPrecision = - 3\<rparr>)\<rparr>) =
     Inr (Some 40, emptyHeap\<lparr>trackers := (trackers emptyHeap)
            (0 := \<lparr>IsValid = True, MaxApproximation = Some 8, MinPrecision = - 3\<rparr>,
             1 := \<lparr>IsValid = True, MaxApproximation = Some 40, MinPrecision = - 3\<rparr>)\<rparr>)"
    using Approximate_fresh_integer [of "- 3" "emptyHeap\<lparr>trackers := (trackers emptyHeap)
            (0 := \<lparr>IsValid = True, MaxApproximation = Some 8, MinPrecision = - 3\<rparr>)\<rparr>" 1 noKernel 5] v s1
    by (simp add: emptyHeap_def zeroTracker_def)
  show ?thesis
    using compare_doubling [of "constructiveInteger 0 1" "constructiveInteger 1 5" noKernel "- 2"
        emptyHeap "Some 8" _ "Some 40" _, OF ] a b
    by auto
qed


section \<open>Multiplicative inverse\<close>

text \<open>
  \<^verbatim>\<open>constructiveMultiplicativeInverse.approximate\<close> divides by the signed divisor
  (\<^verbatim>\<open>bigDiv(adj, divisor)\<close>, Euclidean division) and then negates a negative quotient.
  Whatever the argument, it therefore never returns a negative integer.
\<close>

lemma inverse_approximation_nonneg:
  assumes "approximate K (constructiveMultiplicativeInverse t r) p h = Inr (Some a, h')"
  shows "0 \<le> a"
  using assms
  by (auto simp: Let_def bigDiv_def bigNeg_def
      split: sum.splits prod.splits option.splits if_splits)

text \<open>
  Claim C2 says that for an argument whose approximation at \<open>pn\<close> is negative the
  returned approximation of \<open>1/r\<close> is negative. The code does not do that. On the nodes
  built by \<^verbatim>\<open>Inverse(FromInt(-2))\<close>, the argument approximates to \<open>-128\<close> at precision
  \<open>-6\<close> (the \<open>pn\<close> of this call), and \<^verbatim>\<open>Approximate\<close> at precision \<open>-4\<close> returns \<open>8\<close>,
  that is \<open>+1/2\<close> instead of \<open>-1/2\<close>.
\<close>

theorem inverse_of_negative_is_positive:
  "(case FromInt (- 2) emptyHeap of
      (x, h1) \<Rightarrow>
        (case Inverse x h1 of
           (r, h2) \<Rightarrow>
             (map_sum id fst (Approximate noKernel x (- 6) h2),
              map_sum id fst (Approximate noKernel r (- 4) h2)))) =
   (Inr (Some (- 128)), Inr (Some 8))"
  by code_simp

section \<open>Domain errors of Ln and Sqrt\<close>

text \<open>
  Claim C4, as stated, fails twice. For \<^verbatim>\<open>FromInt(0)\<close> the probe at \<open>-4\<close> is \<open>0\<close>, which
  is non-positive, yet \<^verbatim>\<open>Ln\<close> does not return nil: it goes on to \<^verbatim>\<open>Ln(Inverse(c))\<close>,
  whose probe panics with a division by zero. And \<^verbatim>\<open>Sqrt(FromInt(-1))\<close> is a
  \<^verbatim>\<open>prescaledSqrt\<close> node, not an error sentinel.
\<close>

theorem ln_sqrt_sentinel_counterexample:
  "(case FromInt 0 emptyHeap of
      (x, h1) \<Rightarrow>
        (map_sum id fst (Approximate noKernel x (- 4) h1),
         map_option (map_sum id fst) (Ln noKernel x h1))) =
     (Inr (Some 0), Some (Inl DivisionByZero)) \<and>
   (case FromInt (- 1) emptyHeap of
      (x, h1) \<Rightarrow> fst (Sqrt x h1)) = prescaledSqrt 1 (constructiveInteger 0 (- 1))"
  by code_simp

text \<open>
  Claim C4, amended. \<^verbatim>\<open>Ln(c)\<close> returns nil at wrap time whenever its probe of \<open>c\<close> at
  precision \<open>-4\<close> is strictly negative. \<^verbatim>\<open>Sqrt(c)\<close> never returns an error sentinel at
  wrap time: for every \<open>c\<close> it allocates and returns a \<^verbatim>\<open>prescaledSqrt\<close> node over \<open>c\<close>.
\<close>

theorem ln_negative_probe_sqrt_passthrough:
  "(Approximate K c (- 4) h = Inr (Some rough, h1) \<and> rough < 0 \<longrightarrow>
      Ln K c h = Some (Inr (Nil, h1))) \<and>
   Sqrt c h = (prescaledSqrt (brk h) c, snd (alloc h)) \<and>
   fst (Sqrt c h) \<noteq> Nil"
  by (subst Ln.simps) (simp add: Sqrt_def newPrescaledSqrt_def alloc_def)

text \<open>
  Instance of the amended C4 at \<^verbatim>\<open>Int(-1)\<close>, whose probe is \<open>-16\<close>.
\<close>

theorem ln_negative_probe_sqrt_passthrough_witness:
  "Approximate noKernel (constructiveInteger 0 (- 1)) (- 4) emptyHeap =
     Inr (Some (- 16), emptyHeap\<lparr>trackers := (trackers emptyHeap)
            (0 := \<lparr>IsValid = True, MaxApproximation = Some (- 16), MinPrecision = - 4\<rparr>)\<rparr>) \<and>
   (- 16 :: int) < 0 \<and>
   Ln noKernel (constructiveInteger 0 (- 1)) emptyHeap =
     Some (Inr (Nil, emptyHeap\<lparr>trackers := (trackers emptyHeap)
            (0 := \<lparr>IsValid = True, MaxApproximation = Some (- 16), MinPrecision = - 4\<rparr>)\<rparr>)) \<and>
   fst (Sqrt (constructiveInteger 0 (- 1)) emptyHeap) \<noteq> Nil"
proof -
  have v: "IsPrecisionValid (- 4)" by (simp add: IsPrecisionValid_range)
  have s: "scale (- 1) (- (- 4)) = - 16"
    by (simp add: scale_def bigLsh_def word_sle_eq push_bit_eq_mult)
  have a: "Approximate noKernel (constructiveInteger 0 (- 1)) (- 4) emptyHeap =
     Inr (Some (- 16), emptyHeap\<lparr>trackers := (trackers emptyHeap)
            (0 := \<lparr>IsValid = True, MaxApproximation = Some (- 16), MinPrecision = - 4\<rparr>)\<rparr>)"
    using Approximate_fresh_integer [of "- 4" emptyHeap 0 noKernel "- 1"] v s
    by (simp add: emptyHeap_def zeroTracker_def)
  show ?thesis
    using ln_negative_probe_sqrt_passthrough [of noKernel "constructiveInteger 0 (- 1)" emptyHeap
        "- 16" _] a
    by simp
qed


section \<open>Text\<close>

lemma natText_small: "base < 2 \<or> n < base \<Longrightarrow> natText base n = [digitChars ! n]"
  by (subst natText.simps) simp

lemma natText_big:
  "2 \<le> base \<Longrightarrow> base \<le> n \<Longrightarrow>
     natText base n = natText base (n div base) @ [digitChars ! (n mod base)]"
  by (subst natText.simps) simp

lemma natText_nonempty: "natText base n \<noteq> []"
  by (subst natText.simps) simp

lemma length_digitChars: "length digitChars = 62"
  by (simp add: digitChars_def)

lemma natText_digits:
  "2 \<le> base \<Longrightarrow> base \<le> 62 \<Longrightarrow> set (natText base n) \<subseteq> set digitChars"
proof (induction base n rule: natText.induct)
  case (1 base n)
  show ?case
  proof (cases "n < base")
    case True
    then have "n < length digitChars" using "1.prems" by (simp add: length_digitChars)
    then show ?thesis using True by (simp add: natText_small)
  next
    case False
    have "n mod base < base" using "1.prems" by simp
    then have "n mod base < length digitChars"
      unfolding length_digitChars using "1.prems" by linarith
    then show ?thesis using False "1.prems" "1.IH" by (simp add: natText_big)
  qed
qed

lemma unat_pad:
  fixes dec :: goint
  assumes "0 < sint dec" "int n \<le> sint dec"
  shows "unat (dec + 1 - of_nat n) = nat (sint dec) + 1 - n"
proof -
  have "dec + 1 - of_nat n = word_of_int (sint dec + 1 - int n)" by simp
  then have "uint (dec + 1 - of_nat n) = (sint dec + 1 - int n) mod 2 ^ 64"
    using uint_word_of_int [of "sint dec + 1 - int n", where 'a = 64] by simp
  moreover have "sint dec + 1 - int n < 2 ^ 64" using sint_lt [of dec] by simp
  ultimately have "uint (dec + 1 - of_nat n) = sint dec + 1 - int n" using assms by simp
  then have "int (unat (dec + 1 - of_nat n)) = sint dec + 1 - int n" by simp
  then show ?thesis using assms by linarith
qed

lemma point_split:
  assumes "d < length padded"
  shows "take (length padded - d) padded \<noteq> [] \<and> length (drop (length padded - d) padded) = d"
  using assms by auto

lemma text_body:
  fixes dec :: goint
  assumes "0 < sint dec"
  shows "(let ss' = (if int (length ss) \<le> sint dec
                     then replicate (unat (dec + 1 - of_nat (length ss))) CHR ''0'' @ ss
                     else ss)
          in take (length ss' - unat dec) ss' @ ''.'' @ drop (length ss' - unat dec) ss') =
         (let padded = replicate (nat (sint dec) + 1 - length ss) CHR ''0'' @ ss
          in take (length padded - nat (sint dec)) padded @ ''.'' @
             drop (length padded - nat (sint dec)) padded)"
proof -
  have u: "unat dec = nat (sint dec)" using unat_nonneg [of dec] assms by linarith
  show ?thesis
  proof (cases "int (length ss) \<le> sint dec")
    case True
    then show ?thesis by (simp add: unat_pad [OF assms True] u Let_def)
  next
    case False
    then have "nat (sint dec) + 1 - length ss = 0" using assms by linarith
    then show ?thesis using False by (simp add: u Let_def)
  qed
qed


lemma Text_cases:
  assumes sch: "(if radix = 16 then ShiftLeft c (4 * dec) h
                 else (case newInteger (bigExp (sint radix) (sint dec)) h of
                         (sf, h1) \<Rightarrow> Multiply c sf h1)) = (sc, h2)"
  shows "fst (Text K c dec radix h) =
     (case Approximate K sc 0 h2 of
        Inl e \<Rightarrow> recovered e
      | Inr (None, h3) \<Rightarrow> recovered NilDereference
      | Inr (Some si, h3) \<Rightarrow>
          if radix <s 2 \<or> 62 <s radix then recovered InvalidBase
          else if 0 < sint dec then textSpec si (nat (sint dec)) (nat (sint radix))
          else (if si < 0 then ''-'' else []) @ natText (nat (sint radix)) (nat \<bar>si\<bar>))"
proof (cases "Approximate K sc 0 h2")
  case (Inl e)
  show ?thesis unfolding Text_def sch by (simp add: Inl)
next
  case (Inr r)
  obtain a h3 where r: "r = (a, h3)" by (cases r)
  show ?thesis
  proof (cases a)
    case None
    show ?thesis unfolding Text_def sch by (simp add: Inr r None)
  next
    case (Some si)
    have sg: "sgn si < 0 \<longleftrightarrow> si < 0" by (simp add: sgn_if)
    show ?thesis
    proof (cases "radix <s 2 \<or> 62 <s radix")
      case True
      show ?thesis unfolding Text_def sch
        using True by (simp add: Inr r Some bigText_def)
    next
      case False
      note base = False
      show ?thesis
      proof (cases "0 < sint dec")
        case True
        have b: "0 <s dec" using True by (simp add: word_sless_alt)
        show ?thesis unfolding Text_def sch text_body [OF True]
          using base b True
          by (simp add: Inr r Some bigText_def bigAbs_def sg textSpec_def Let_def)
      next
        case False
        have b: "\<not> 0 <s dec" using False by (simp add: word_sless_alt)
        show ?thesis unfolding Text_def sch
          using base b False
          by (simp add: Inr r Some bigText_def bigAbs_def sg)
      qed
    qed
  qed
qed


lemma textSpec_shape:
  assumes "2 \<le> radix" "radix \<le> 62"
  shows "\<exists>ip fp. textSpec si dec radix = (if si < 0 then ''-'' else []) @ ip @ ''.'' @ fp \<and>
           ip \<noteq> [] \<and> length fp = dec \<and> set (ip @ fp) \<subseteq> set digitChars"
proof -
  define ds where "ds = natText radix (nat \<bar>si\<bar>)"
  define padded where "padded = replicate (dec + 1 - length ds) CHR ''0'' @ ds"
  have len: "dec < length padded" by (simp add: padded_def)
  have zero: "CHR ''0'' \<in> set digitChars" by (simp add: digitChars_def)
  have "set padded \<subseteq> set digitChars"
    using natText_digits [OF assms, of "nat \<bar>si\<bar>"] zero by (auto simp: padded_def ds_def)
  then have sub: "set (take (length padded - dec) padded @ drop (length padded - dec) padded)
      \<subseteq> set digitChars" by simp
  have "textSpec si dec radix =
      (if si < 0 then ''-'' else []) @ take (length padded - dec) padded @ ''.'' @
        drop (length padded - dec) padded"
    by (simp add: textSpec_def Let_def padded_def ds_def)
  then show ?thesis using point_split [OF len] sub by blast
qed

lemma point_not_digit: "CHR ''.'' \<notin> set digitChars"
  by (simp add: digitChars_def)

lemma scaled_val:
  assumes "(if radix = 16 then ShiftLeft c (4 * dec) h
            else (case newInteger (bigExp (sint radix) (sint dec)) h of
                    (sf, h1) \<Rightarrow> Multiply c sf h1)) = (sc, h2)"
  shows "(0 \<le> sint dec \<and> radix \<noteq> 16 \<longrightarrow> val sc = val c * of_int (sint radix) ^ nat (sint dec)) \<and>
         (0 \<le> sint dec \<and> sint dec < 2 ^ 61 \<and> radix = 16 \<longrightarrow> val sc = val c * 16 ^ nat (sint dec))"
proof (cases "radix = 16")
  case False
  have "bigExp (sint radix) (sint dec) = sint radix ^ nat (sint dec)" if "0 \<le> sint dec"
    using that by (cases "sint dec = 0") (simp_all add: bigExp_def)
  then show ?thesis using assms False
    by (auto simp: newInteger_def Multiply_def newMultiplication_def alloc_def
        split: prod.splits)
next
  case True
  have "sint (4 * dec) = 4 * sint dec" if "0 \<le> sint dec" "sint dec < 2 ^ 61"
  proof -
    have "4 * dec = word_of_int (4 * sint dec)" by simp
    then show ?thesis using sint_word_of_int [of "4 * sint dec"] that by simp
  qed
  moreover have "(2::real) powi (4 * k) = 16 ^ nat k" if "0 \<le> k" for k :: int
  proof -
    have "(2::real) powi (4 * k) = 2 ^ (4 * nat k)"
      using that by (simp add: power_int_def nat_mult_distrib)
    also have "\<dots> = 16 ^ nat k" by (simp add: power_mult)
    finally show ?thesis .
  qed
  ultimately show ?thesis using assms True
    by (auto simp: ShiftLeft_def newShift_def alloc_def pow2_def split: prod.splits)
qed

text \<open>
  Claim C8, as stated, fails for \<open>dec = 0\<close>: \<^verbatim>\<open>Text(FromInt(10), 0, 10)\<close> is \<open>10\<close>, which
  contains no radix point.
\<close>

theorem text_fixed_point_counterexample:
  "(case FromInt 10 emptyHeap of (c, h) \<Rightarrow> fst (Text noKernel c 0 10 h)) = ''10'' \<and>
   CHR ''.'' \<notin> set ''10''"
  by code_simp

text \<open>
  Claim C8, amended. Let \<open>sc\<close> be the node that \<^verbatim>\<open>Text(c, dec, radix)\<close> builds:
  \<^verbatim>\<open>ShiftLeft(c, 4*dec)\<close> for radix 16 and \<^verbatim>\<open>Multiply(c, radix^dec)\<close> otherwise; for
  \<open>dec \<ge> 0\<close> its value is that of \<open>c\<close> times \<open>radix\<^sup>d\<^sup>e\<^sup>c\<close> (for radix 16 as long as
  \<open>4 \<cdot> dec\<close> does not wrap). \<^verbatim>\<open>Text\<close> approximates \<open>sc\<close> at precision 0. A panic of that
  approximation, and a nil result, are rendered as \<open><undefined: message>\<close>. For an
  integer result \<open>si\<close> and a radix from 2 to 62: when \<open>dec > 0\<close> the text is the
  digits of \<open>|si|\<close> left-padded with zeros to \<open>dec + 1\<close> digits, with a radix point
  before the last \<open>dec\<close> digits and a minus sign in front when \<open>si < 0\<close>, so it is
  an optional sign, at least one integer digit, the point and exactly \<open>dec\<close>
  fractional digits; when \<open>dec \<le> 0\<close> it is the optional sign and the digits of
  \<open>|si|\<close>, without a radix point.
\<close>

theorem text_fixed_point:
  "(if radix = 16 then ShiftLeft c (4 * dec) h
    else (case newInteger (bigExp (sint radix) (sint dec)) h of
            (sf, h1) \<Rightarrow> Multiply c sf h1)) = (sc, h2) \<Longrightarrow>
   (0 \<le> sint dec \<and> radix \<noteq> 16 \<longrightarrow> val sc = val c * of_int (sint radix) ^ nat (sint dec)) \<and>
   (0 \<le> sint dec \<and> sint dec < 2 ^ 61 \<and> radix = 16 \<longrightarrow> val sc = val c * 16 ^ nat (sint dec)) \<and>
   (map_sum id fst (Approximate K sc 0 h2) = Inl e \<longrightarrow>
      fst (Text K c dec radix h) = ''<undefined: '' @ panicText e @ ''>'') \<and>
   (map_sum id fst (Approximate K sc 0 h2) = Inr None \<longrightarrow>
      fst (Text K c dec radix h) = ''<undefined: '' @ panicText NilDereference @ ''>'') \<and>
   (map_sum id fst (Approximate K sc 0 h2) = Inr (Some si) \<and> 2 \<le> sint radix \<and> sint radix \<le> 62 \<longrightarrow>
      (0 < sint dec \<longrightarrow>
         fst (Text K c dec radix h) = textSpec si (nat (sint dec)) (nat (sint radix)) \<and>
         (\<exists>ip fp. fst (Text K c dec radix h) = (if si < 0 then ''-'' else []) @ ip @ ''.'' @ fp \<and>
            ip \<noteq> [] \<and> length fp = nat (sint dec) \<and> set (ip @ fp) \<subseteq> set digitChars)) \<and>
      (sint dec \<le> 0 \<longrightarrow>
         fst (Text K c dec radix h) =
           (if si < 0 then ''-'' else []) @ natText (nat (sint radix)) (nat \<bar>si\<bar>) \<and>
         CHR ''.'' \<notin> set (fst (Text K c dec radix h))))"
proof -
  assume sch: "(if radix = 16 then ShiftLeft c (4 * dec) h
    else (case newInteger (bigExp (sint radix) (sint dec)) h of
            (sf, h1) \<Rightarrow> Multiply c sf h1)) = (sc, h2)"
  note T = Text_cases [OF sch, of K]
  have p1: "fst (Text K c dec radix h) = ''<undefined: '' @ panicText e @ ''>''"
    if "map_sum id fst (Approximate K sc 0 h2) = Inl e"
    using that T by (cases "Approximate K sc 0 h2") (auto simp: recovered_def)
  have p2: "fst (Text K c dec radix h) = ''<undefined: '' @ panicText NilDereference @ ''>''"
    if "map_sum id fst (Approximate K sc 0 h2) = Inr None"
    using that T by (cases "Approximate K sc 0 h2") (auto simp: recovered_def)
  have p3: "fst (Text K c dec radix h) =
      (if 0 < sint dec then textSpec si (nat (sint dec)) (nat (sint radix))
       else (if si < 0 then ''-'' else []) @ natText (nat (sint radix)) (nat \<bar>si\<bar>))"
    if "map_sum id fst (Approximate K sc 0 h2) = Inr (Some si)" "2 \<le> sint radix" "sint radix \<le> 62"
    using that T by (cases "Approximate K sc 0 h2") (auto simp: word_sless_alt)
  have p4: "\<exists>ip fp. textSpec si (nat (sint dec)) (nat (sint radix)) =
        (if si < 0 then ''-'' else []) @ ip @ ''.'' @ fp \<and>
        ip \<noteq> [] \<and> length fp = nat (sint dec) \<and> set (ip @ fp) \<subseteq> set digitChars"
    if "2 \<le> sint radix" "sint radix \<le> 62"
    using that by (intro textSpec_shape) linarith+
  have p5: "CHR ''.'' \<notin> set ((if si < 0 then ''-'' else []) @ natText (nat (sint radix)) (nat \<bar>si\<bar>))"
    if "2 \<le> sint radix" "sint radix \<le> 62"
  proof -
    have "set (natText (nat (sint radix)) (nat \<bar>si\<bar>)) \<subseteq> set digitChars"
      using that by (intro natText_digits) linarith+
    then show ?thesis using point_not_digit by auto
  qed
  show ?thesis
    using scaled_val [OF sch] p1 p2 p3 p4 p5 by (simp del: set_append)
qed

text \<open>
  Instances of the amended C8: \<open>-5\<close> with two decimals in radix 10, \<open>10\<close> with one
  digit in radix 16, \<open>10\<close> with no decimals, the nil node (a panic), and a shift so
  large that the approximation is nil.
\<close>

theorem text_fixed_point_witness:
  "(let c = constructiveInteger 0 (- 5); h = snd (FromInt (- 5) emptyHeap);
        X = (case newInteger (bigExp (sint (10 :: goint)) (sint (2 :: goint))) h of
               (sf, h1) \<Rightarrow> Multiply c sf h1)
    in (0::int) \<le> sint (2 :: goint) \<and> (10 :: goint) \<noteq> 16 \<and>
       map_sum id fst (Approximate noKernel (fst X) 0 (snd X)) = Inr (Some (- 500)) \<and>
       (2::int) \<le> sint (10 :: goint) \<and> sint (10 :: goint) \<le> (62::int) \<and>
       val (fst X) = val c * of_int (sint (10 :: goint)) ^ nat (sint (2 :: goint)) \<and>
       fst (Text noKernel c 2 10 h) = textSpec (- 500) 2 10 \<and>
       fst (Text noKernel c 2 10 h) = ''-5.00'') \<and>
   (let c = constructiveInteger 0 10; h = snd (FromInt 10 emptyHeap);
        X = ShiftLeft c (4 * 1) h
    in (0::int) \<le> sint (1 :: goint) \<and> sint (1 :: goint) < (2::int) ^ 61 \<and>
       map_sum id fst (Approximate noKernel (fst X) 0 (snd X)) = Inr (Some 160) \<and>
       val (fst X) = val c * 16 ^ nat (sint (1 :: goint)) \<and>
       fst (Text noKernel c 1 16 h) = ''a.0'') \<and>
   (let c = constructiveInteger 0 10; h = snd (FromInt 10 emptyHeap);
        X = (case newInteger (bigExp (sint (10 :: goint)) (sint (0 :: goint))) h of
               (sf, h1) \<Rightarrow> Multiply c sf h1)
    in sint (0 :: goint) \<le> (0::int) \<and>
       map_sum id fst (Approximate noKernel (fst X) 0 (snd X)) = Inr (Some 10) \<and>
       fst (Text noKernel c 0 10 h) = ''10'' \<and>
       CHR ''.'' \<notin> set (fst (Text noKernel c 0 10 h))) \<and>
   (let X = (case newInteger (bigExp (sint (10 :: goint)) (sint (1 :: goint))) emptyHeap of
               (sf, h1) \<Rightarrow> Multiply Nil sf h1)
    in map_sum id fst (Approximate noKernel (fst X) 0 (snd X)) = Inl NilDereference \<and>
       fst (Text noKernel Nil 1 10 emptyHeap) =
         ''<undefined: runtime error: invalid memory address or nil pointer dereference>'') \<and>
   (let c = constructiveInteger 0 1; h = snd (FromInt 1 emptyHeap);
        X = ShiftLeft c (4 * 2 ^ 59) h
    in map_sum id fst (Approximate noKernel (fst X) 0 (snd X)) = Inr None \<and>
       fst (Text noKernel c (2 ^ 59) 16 h) =
         ''<undefined: runtime error: invalid memory address or nil pointer dereference>'')"
proof -
  define cA hA XA where "cA = constructiveInteger 0 (- 5)" and "hA = snd (FromInt (- 5) emptyHeap)"
    and "XA = (case newInteger (bigExp (sint (10 :: goint)) (sint (2 :: goint))) hA of
               (sf, h1) \<Rightarrow> Multiply cA sf h1)"
  have a1: "map_sum id fst (Approximate noKernel (fst XA) 0 (snd XA)) = Inr (Some (- 500))"
    unfolding XA_def hA_def cA_def by code_simp
  have a2: "textSpec (- 500) (nat (sint (2 :: goint))) (nat (sint (10 :: goint))) = ''-5.00''"
    by code_simp
  have a3: "textSpec (- 500) (nat (sint (2 :: goint))) (nat (sint (10 :: goint))) =
      textSpec (- 500) 2 10" by simp
  have a0: "(if (10 :: goint) = 16 then ShiftLeft cA (4 * 2) hA
             else (case newInteger (bigExp (sint (10 :: goint)) (sint (2 :: goint))) hA of
                     (sf, h1) \<Rightarrow> Multiply cA sf h1)) = (fst XA, snd XA)"
    by (simp add: XA_def)
  have ah: "(0::int) \<le> sint (2 :: goint)" "(10 :: goint) \<noteq> 16" "(2::int) \<le> sint (10 :: goint)"
    "sint (10 :: goint) \<le> (62::int)" "(0::int) < sint (2 :: goint)"
    by simp_all
  note A = text_fixed_point [OF a0, of noKernel NilDereference "- 500"]
  from A a1 ah have A': "val (fst XA) = val cA * of_int (sint (10 :: goint)) ^ nat (sint (2 :: goint))"
    "fst (Text noKernel cA 2 10 hA) =
       textSpec (- 500) (nat (sint (2 :: goint))) (nat (sint (10 :: goint)))"
    by blast+
  have iA: "(0::int) \<le> sint (2 :: goint) \<and> (10 :: goint) \<noteq> 16 \<and>
       map_sum id fst (Approximate noKernel (fst XA) 0 (snd XA)) = Inr (Some (- 500)) \<and>
       (2::int) \<le> sint (10 :: goint) \<and> sint (10 :: goint) \<le> (62::int) \<and>
       val (fst XA) = val cA * of_int (sint (10 :: goint)) ^ nat (sint (2 :: goint)) \<and>
       fst (Text noKernel cA 2 10 hA) = textSpec (- 500) 2 10 \<and>
       fst (Text noKernel cA 2 10 hA) = ''-5.00''"
    using ah a1 A' a2 a3 by (simp only: simp_thms)
  define cB hB XB where "cB = constructiveInteger 0 10" and "hB = snd (FromInt 10 emptyHeap)"
    and "XB = ShiftLeft cB (4 * 1) hB"
  have b1: "map_sum id fst (Approximate noKernel (fst XB) 0 (snd XB)) = Inr (Some 160)"
    unfolding XB_def hB_def cB_def by code_simp
  have b2: "textSpec 160 (nat (sint (1 :: goint))) (nat (sint (16 :: goint))) = ''a.0''"
    by code_simp
  have b0: "(if (16 :: goint) = 16 then ShiftLeft cB (4 * 1) hB
             else (case newInteger (bigExp (sint (16 :: goint)) (sint (1 :: goint))) hB of
                     (sf, h1) \<Rightarrow> Multiply cB sf h1)) = (fst XB, snd XB)"
    by (simp only: XB_def if_True prod.collapse simp_thms)
  have bh: "(0::int) \<le> sint (1 :: goint)" "sint (1 :: goint) < (2::int) ^ 61"
    "(2::int) \<le> sint (16 :: goint)" "sint (16 :: goint) \<le> (62::int)" "(0::int) < sint (1 :: goint)"
    by simp_all
  note B = text_fixed_point [OF b0, of noKernel NilDereference 160]
  from B b1 bh have B': "val (fst XB) = val cB * 16 ^ nat (sint (1 :: goint))"
    "fst (Text noKernel cB 1 16 hB) =
       textSpec 160 (nat (sint (1 :: goint))) (nat (sint (16 :: goint)))"
    by blast+
  have iB: "(0::int) \<le> sint (1 :: goint) \<and> sint (1 :: goint) < (2::int) ^ 61 \<and>
       map_sum id fst (Approximate noKernel (fst XB) 0 (snd XB)) = Inr (Some 160) \<and>
       val (fst XB) = val cB * 16 ^ nat (sint (1 :: goint)) \<and>
       fst (Text noKernel cB 1 16 hB) = ''a.0''"
    using bh b1 B' b2 by (simp only: simp_thms)
  define XC where
    "XC = (case newInteger (bigExp (sint (10 :: goint)) (sint (0 :: goint))) hB of
               (sf, h1) \<Rightarrow> Multiply cB sf h1)"
  have c1: "map_sum id fst (Approximate noKernel (fst XC) 0 (snd XC)) = Inr (Some 10)"
    unfolding XC_def hB_def cB_def by code_simp
  have c2: "(if (10::int) < 0 then ''-'' else []) @ natText (nat (sint (10 :: goint))) (nat \<bar>10\<bar>)
      = ''10''" by code_simp
  have c0: "(if (10 :: goint) = 16 then ShiftLeft cB (4 * 0) hB
             else (case newInteger (bigExp (sint (10 :: goint)) (sint (0 :: goint))) hB of
                     (sf, h1) \<Rightarrow> Multiply cB sf h1)) = (fst XC, snd XC)"
    by (simp add: XC_def)
  have ch: "sint (0 :: goint) \<le> (0::int)" "(2::int) \<le> sint (10 :: goint)"
    "sint (10 :: goint) \<le> (62::int)"
    by simp_all
  note C = text_fixed_point [OF c0, of noKernel NilDereference 10]
  from C c1 ch have C': "fst (Text noKernel cB 0 10 hB) =
       (if (10::int) < 0 then ''-'' else []) @ natText (nat (sint (10 :: goint))) (nat \<bar>10\<bar>)"
    "CHR ''.'' \<notin> set (fst (Text noKernel cB 0 10 hB))"
    by blast+
  have iC: "sint (0 :: goint) \<le> (0::int) \<and>
       map_sum id fst (Approximate noKernel (fst XC) 0 (snd XC)) = Inr (Some 10) \<and>
       fst (Text noKernel cB 0 10 hB) = ''10'' \<and>
       CHR ''.'' \<notin> set (fst (Text noKernel cB 0 10 hB))"
    using ch c1 C' c2 by (simp only: simp_thms)
  have pt: "''<undefined: '' @ panicText NilDereference @ ''>'' =
      ''<undefined: runtime error: invalid memory address or nil pointer dereference>''"
    by (simp add: panicText_def)
  define XD where
    "XD = (case newInteger (bigExp (sint (10 :: goint)) (sint (1 :: goint))) emptyHeap of
               (sf, h1) \<Rightarrow> Multiply Nil sf h1)"
  have d1: "map_sum id fst (Approximate noKernel (fst XD) 0 (snd XD)) = Inl NilDereference"
    unfolding XD_def by code_simp
  have d0: "(if (10 :: goint) = 16 then ShiftLeft Nil (4 * 1) emptyHeap
             else (case newInteger (bigExp (sint (10 :: goint)) (sint (1 :: goint))) emptyHeap of
                     (sf, h1) \<Rightarrow> Multiply Nil sf h1)) = (fst XD, snd XD)"
    by (simp add: XD_def)
  note D = text_fixed_point [OF d0, of noKernel NilDereference 0]
  from D d1 have D': "fst (Text noKernel Nil 1 10 emptyHeap) =
      ''<undefined: '' @ panicText NilDereference @ ''>''" by blast
  have iD: "map_sum id fst (Approximate noKernel (fst XD) 0 (snd XD)) = Inl NilDereference \<and>
       fst (Text noKernel Nil 1 10 emptyHeap) =
         ''<undefined: runtime error: invalid memory address or nil pointer dereference>''"
    using d1 D' pt by (simp only: simp_thms)
  define cE hE XE where "cE = constructiveInteger 0 1" and "hE = snd (FromInt 1 emptyHeap)"
    and "XE = ShiftLeft cE (4 * 2 ^ 59) hE"
  have e1: "map_sum id fst (Approximate noKernel (fst XE) 0 (snd XE)) = Inr None"
    unfolding XE_def hE_def cE_def by code_simp
  have e0: "(if (16 :: goint) = 16 then ShiftLeft cE (4 * 2 ^ 59) hE
             else (case newInteger (bigExp (sint (16 :: goint)) (sint (2 ^ 59 :: goint))) hE of
                     (sf, h1) \<Rightarrow> Multiply cE sf h1)) = (fst XE, snd XE)"
    by (simp only: XE_def if_True prod.collapse simp_thms)
  note E = text_fixed_point [OF e0, of noKernel NilDereference 0]
  from E e1 have E': "fst (Text noKernel cE (2 ^ 59) 16 hE) =
      ''<undefined: '' @ panicText NilDereference @ ''>''" by blast
  have iE: "map_sum id fst (Approximate noKernel (fst XE) 0 (snd XE)) = Inr None \<and>
       fst (Text noKernel cE (2 ^ 59) 16 hE) =
         ''<undefined: runtime error: invalid memory address or nil pointer dereference>''"
    using e1 E' pt by (simp only: simp_thms)
  from iA iB iC iD iE show ?thesis
    unfolding Let_def cA_def hA_def XA_def cB_def hB_def XB_def XC_def XD_def cE_def hE_def XE_def
    by (intro conjI) blast+
qed


section \<open>Powers of two\<close>

lemma pow2_pos [simp]: "0 < pow2 k"
  by (simp add: pow2_def)

lemma pow2_nonneg [simp]: "0 \<le> pow2 k"
  by (simp add: pow2_def)

lemma pow2_add: "pow2 (j + k) = pow2 j * pow2 k"
  by (simp add: pow2_def power_int_add)

lemma pow2_diff: "pow2 (j - k) = pow2 j / pow2 k"
  by (simp add: pow2_def power_int_diff)

lemma pow2_0 [simp]: "pow2 0 = 1"
  by (simp add: pow2_def)

lemma pow2_nat: "pow2 (int n) = 2 ^ n"
  by (simp add: pow2_def)

lemma pow2_nonneg_exp: "0 \<le> k \<Longrightarrow> pow2 k = 2 ^ nat k"
  by (simp add: pow2_def power_int_nonneg_exp)

lemma pow2_neg_exp: "k \<le> 0 \<Longrightarrow> pow2 k = 1 / 2 ^ nat (- k)"
  by (simp add: pow2_def power_int_def field_simps)

lemma pow2_mono: "j \<le> k \<Longrightarrow> pow2 j \<le> pow2 k"
  by (simp add: pow2_def power_int_increasing)

lemma pow2_strict_mono: "j < k \<Longrightarrow> pow2 j < pow2 k"
  by (simp add: pow2_def power_int_strict_increasing)

lemma pow2_double: "2 * pow2 k = pow2 (k + 1)"
  by (simp add: pow2_def power_int_add)

lemma pow2_half: "pow2 k / 2 = pow2 (k - 1)"
  by (simp add: pow2_def power_int_diff)

lemma pow2_le_one: "k \<le> 0 \<Longrightarrow> pow2 k \<le> 1"
  using pow2_mono [of k 0] by simp

lemma pow2_of_int: "0 \<le> k \<Longrightarrow> pow2 k = of_int (2 ^ nat k)"
  by (simp add: pow2_nonneg_exp)

section \<open>The rounding of scale\<close>

lemma scale_nonneg_real:
  assumes "0 \<le> sint n"
  shows "of_int (scale i n) = of_int i * pow2 (sint n)"
proof -
  have u: "unat n = nat (sint n)" using unat_nonneg [OF assms] by linarith
  have "0 \<le>s n" using assms by (simp add: word_sle_eq)
  then show ?thesis
    by (simp add: scale_def bigLsh_def push_bit_eq_mult u pow2_nonneg_exp [OF assms])
qed

lemma scale_neg_real:
  assumes "sint n < 0"
  shows "scale i n = \<lfloor>of_int i * pow2 (sint n) + 1 / 2\<rfloor>"
  using scale_neg_floor [OF assms, of i] by (simp add: pow2_def)

lemma scale_error:
  "\<bar>of_int (scale i n) - of_int i * pow2 (sint n)\<bar> \<le> 1 / 2"
proof (cases "0 \<le> sint n")
  case True
  then show ?thesis by (simp add: scale_nonneg_real)
next
  case False
  then have "scale i n = \<lfloor>of_int i * pow2 (sint n) + 1 / 2\<rfloor>"
    by (simp add: scale_neg_real)
  then show ?thesis by linarith
qed

section \<open>Approximations\<close>

lemma approximates_zero: "approximates x k 0 \<longleftrightarrow> \<bar>x\<bar> < pow2 k"
  by (simp add: approximates_def)

lemma approximates_neg: "approximates x k a \<Longrightarrow> approximates (- x) k (- a)"
  by (simp add: approximates_def)

lemma approximates_shift:
  assumes "approximates x (k - n) a"
  shows "approximates (x * pow2 n) k a"
proof -
  have "\<bar>of_int a * pow2 (k - n) - x\<bar> * pow2 n < pow2 (k - n) * pow2 n"
    using assms by (simp add: approximates_def)
  moreover have "pow2 (k - n) * pow2 n = pow2 k" by (simp flip: pow2_add)
  moreover have "\<bar>of_int a * pow2 (k - n) - x\<bar> * pow2 n = \<bar>of_int a * pow2 k - x * pow2 n\<bar>"
  proof -
    have "\<bar>of_int a * pow2 (k - n) - x\<bar> * pow2 n = \<bar>(of_int a * pow2 (k - n) - x) * pow2 n\<bar>"
      by (simp add: abs_mult)
    also have "(of_int a * pow2 (k - n) - x) * pow2 n
        = of_int a * (pow2 (k - n) * pow2 n) - x * pow2 n"
      by (simp add: algebra_simps)
    finally show ?thesis by (simp flip: pow2_add)
  qed
  ultimately show ?thesis by (simp add: approximates_def)
qed

lemma approximates_rescale:
  assumes "approximates x q m" "sint d = q - k" "q \<le> k"
  shows "approximates x k (scale m d)"
proof (cases "q = k")
  case True
  then have "sint d = 0" using assms by simp
  then have "of_int (scale m d) = (of_int m :: real)"
    using scale_nonneg_real [of d m] by simp
  then show ?thesis using assms(1) True by (simp add: approximates_def)
next
  case False
  then have lt: "q \<le> k - 1" using assms by simp
  have e: "\<bar>of_int (scale m d) - of_int m * pow2 (q - k)\<bar> \<le> 1 / 2"
    using scale_error [of m d] assms(2) by simp
  have "\<bar>of_int (scale m d) * pow2 k - of_int m * pow2 q\<bar>
      = \<bar>of_int (scale m d) - of_int m * pow2 (q - k)\<bar> * pow2 k"
  proof -
    have "pow2 (q - k) * pow2 k = pow2 q" by (simp flip: pow2_add)
    then have "of_int (scale m d) * pow2 k - of_int m * pow2 q
        = (of_int (scale m d) - of_int m * pow2 (q - k)) * pow2 k"
      by (simp add: algebra_simps)
    then show ?thesis by (simp add: abs_mult)
  qed
  then have 1: "\<bar>of_int (scale m d) * pow2 k - of_int m * pow2 q\<bar> \<le> pow2 k / 2"
    using e mult_right_mono [of "\<bar>of_int (scale m d) - of_int m * pow2 (q - k)\<bar>" "1/2" "pow2 k"]
    by simp
  have 2: "\<bar>of_int m * pow2 q - x\<bar> < pow2 q" using assms(1) by (simp add: approximates_def)
  have 3: "pow2 q \<le> pow2 k / 2" using pow2_mono [OF lt] by (simp add: pow2_half)
  show ?thesis unfolding approximates_def using 1 2 3 by linarith
qed

lemma approximates_add:
  assumes "approximates x (k - 2) a" "approximates y (k - 2) b"
  shows "approximates (x + y) k (scale (bigAdd a b) (- 2))"
proof -
  let ?s = "scale (bigAdd a b) (- 2)"
  have q: "pow2 (k - 2) = pow2 k / 4"
    by (simp add: pow2_def power_int_diff)
  have e: "\<bar>of_int ?s - of_int (a + b) * pow2 (- 2)\<bar> \<le> 1 / 2"
    using scale_error [of "bigAdd a b" "- 2"] by (simp add: bigAdd_def)
  have p: "pow2 (- 2) = 1 / 4" by (simp add: pow2_def)
  have "\<bar>of_int ?s * pow2 k - of_int (a + b) * (pow2 k / 4)\<bar>
      = \<bar>of_int ?s - of_int (a + b) * pow2 (- 2)\<bar> * pow2 k"
  proof -
    have "of_int ?s * pow2 k - of_int (a + b) * (pow2 k / 4)
        = (of_int ?s - of_int (a + b) * pow2 (- 2)) * pow2 k"
      by (simp add: p algebra_simps)
    then show ?thesis by (simp add: abs_mult)
  qed
  then have 1: "\<bar>of_int ?s * pow2 k - of_int (a + b) * (pow2 k / 4)\<bar> \<le> pow2 k / 2"
    using e mult_right_mono [of "\<bar>of_int ?s - of_int (a + b) * pow2 (- 2)\<bar>" "1/2" "pow2 k"]
    by simp
  have 2: "\<bar>of_int a * (pow2 k / 4) - x\<bar> < pow2 k / 4" "\<bar>of_int b * (pow2 k / 4) - y\<bar> < pow2 k / 4"
    using assms by (simp_all add: approximates_def q)
  have 3: "of_int (a + b) * (pow2 k / 4) = of_int a * (pow2 k / 4) + of_int b * (pow2 k / 4)"
    by (simp add: algebra_simps)
  show ?thesis unfolding approximates_def using 1 2 3 by linarith
qed

lemma approximates_integer:
  assumes "sint n = - k"
  shows "approximates (of_int i) k (scale i n)"
proof -
  have e: "\<bar>of_int (scale i n) - of_int i * pow2 (- k)\<bar> \<le> 1 / 2"
    using scale_error [of i n] assms by simp
  have "pow2 (- k) * pow2 k = 1" by (simp flip: pow2_add)
  then have "of_int (scale i n) * pow2 k - of_int i
      = (of_int (scale i n) - of_int i * pow2 (- k)) * pow2 k"
    by (simp add: algebra_simps)
  then have "\<bar>of_int (scale i n) * pow2 k - of_int i\<bar>
      = \<bar>of_int (scale i n) - of_int i * pow2 (- k)\<bar> * pow2 k"
    by (simp add: abs_mult)
  then have "\<bar>of_int (scale i n) * pow2 k - of_int i\<bar> \<le> pow2 k / 2"
    using e mult_right_mono [of "\<bar>of_int (scale i n) - of_int i * pow2 (- k)\<bar>" "1/2" "pow2 k"]
    by simp
  moreover have "pow2 k / 2 < pow2 k" by simp
  ultimately show ?thesis unfolding approximates_def by linarith
qed


section \<open>Bit lengths\<close>

lemma BitLen_neg [simp]: "BitLen (bigNeg m) = BitLen m"
  by (simp add: BitLen_def bigNeg_def)

lemma BitLen_upper: "\<bar>m\<bar> < 2 ^ BitLen m"
proof (cases "m = 0")
  case True
  then show ?thesis by (simp add: BitLen_def)
next
  case False
  then have "0 < \<bar>m\<bar>" by simp
  from bitlen_bounds [OF this] show ?thesis by (simp add: BitLen_def)
qed

lemma BitLen_le: "\<bar>m\<bar> < 2 ^ k \<Longrightarrow> BitLen m \<le> k"
  using bitlen_le_iff_power [of "\<bar>m\<bar>" "int k"] by (simp add: BitLen_def)

lemma BitLen_ge: "2 ^ k \<le> \<bar>m\<bar> \<Longrightarrow> k < BitLen m"
proof -
  assume a: "2 ^ k \<le> \<bar>m\<bar>"
  have "int k + 1 \<le> bitlen \<bar>m\<bar>"
    using bitlen_ge_iff_power [of "int k + 1" "\<bar>m\<bar>"] a by (simp add: nat_add_distrib)
  then show ?thesis using bitlen_nonneg [of "\<bar>m\<bar>"] by (simp add: BitLen_def)
qed

lemma BitLen_ge_2: "2 \<le> \<bar>m\<bar> \<Longrightarrow> 2 \<le> BitLen m"
  using BitLen_ge [of 1 m] by simp

lemma BitLen_pos: "m \<noteq> 0 \<Longrightarrow> 1 \<le> BitLen m"
proof -
  assume "m \<noteq> 0"
  then have "2 ^ 0 \<le> \<bar>m\<bar>" by simp
  then have "0 < BitLen m" by (rule BitLen_ge)
  then show ?thesis by simp
qed

lemma msd_upper:
  assumes "approximates x q m"
  shows "\<bar>x\<bar> < pow2 (q + int (BitLen m))"
proof -
  have "\<bar>m\<bar> + 1 \<le> 2 ^ BitLen m" using BitLen_upper [of m] by simp
  then have "of_int (\<bar>m\<bar> + 1) \<le> (of_int (2 ^ BitLen m) :: real)" by (simp only: of_int_le_iff)
  then have b: "\<bar>of_int m\<bar> + 1 \<le> (2 ^ BitLen m :: real)" by simp
  have "\<bar>x\<bar> < \<bar>of_int m * pow2 q\<bar> + pow2 q"
    using assms unfolding approximates_def by linarith
  also have "\<dots> = (\<bar>of_int m\<bar> + 1) * pow2 q" by (simp add: abs_mult algebra_simps)
  also have "\<dots> \<le> 2 ^ BitLen m * pow2 q" using b by (intro mult_right_mono) simp_all
  also have "\<dots> = pow2 (q + int (BitLen m))" by (simp add: pow2_add pow2_nat)
  finally show ?thesis .
qed

lemma approximation_size:
  assumes "\<bar>x\<bar> < pow2 L" "approximates x q m" "- Q \<le> q" "0 \<le> L + Q"
  shows "int (BitLen m) \<le> L + Q + 1"
proof -
  define N where "N = nat (L + Q)"
  have "\<bar>of_int m * pow2 q\<bar> < \<bar>x\<bar> + pow2 q"
    using assms(2) unfolding approximates_def by linarith
  then have "\<bar>of_int m\<bar> * pow2 q < (pow2 (L - q) + 1) * pow2 q"
    using assms(1) by (simp add: abs_mult algebra_simps flip: pow2_add)
  then have "\<bar>of_int m\<bar> < pow2 (L - q) + 1"
    using mult_less_cancel_right_pos [of "pow2 q"] by simp
  also have "pow2 (L - q) \<le> pow2 (L + Q)" using assms(3) by (intro pow2_mono) simp
  also have "pow2 (L + Q) = of_int (2 ^ N)" using assms(4) by (simp add: pow2_of_int N_def)
  finally have "(of_int \<bar>m\<bar> :: real) < of_int (2 ^ N + 1)" by simp
  then have "\<bar>m\<bar> < 2 ^ N + 1" by (simp only: of_int_less_iff)
  then have "\<bar>m\<bar> < 2 ^ Suc N"
    by (simp, insert zero_less_power [of "2::int" N], linarith)
  then have "BitLen m \<le> Suc N" by (rule BitLen_le)
  then show ?thesis using assms(4) by (simp add: N_def)
qed

lemma scale_nonzero_size:
  assumes "scale m d \<noteq> 0" "sint d = - k" "0 \<le> k"
  shows "k \<le> int (BitLen m)"
proof (rule ccontr)
  assume "\<not> k \<le> int (BitLen m)"
  then have lt: "int (BitLen m) \<le> k - 1" and k: "0 < k" by simp_all
  have "\<bar>of_int m :: real\<bar> < 2 ^ BitLen m"
    using BitLen_upper [of m] by (metis of_int_abs of_int_less_numeral_power_cancel_iff)
  also have "\<dots> = pow2 (int (BitLen m))" by (simp add: pow2_nat)
  also have "\<dots> \<le> pow2 (k - 1)" using lt by (rule pow2_mono)
  finally have "\<bar>of_int m :: real\<bar> * pow2 (- k) < pow2 (k - 1) * pow2 (- k)"
    by (intro mult_strict_right_mono) simp_all
  also have "pow2 (k - 1) * pow2 (- k) = 1 / 2"
  proof -
    have "pow2 (k - 1) * pow2 (- k) = pow2 (- 1)" by (simp flip: pow2_add)
    then show ?thesis by (simp add: pow2_def)
  qed
  finally have "\<bar>of_int m * pow2 (- k)\<bar> < 1 / 2" by (simp add: abs_mult)
  then have "\<lfloor>of_int m * pow2 (- k) + 1 / 2\<rfloor> = 0" by linarith
  moreover have "sint d < 0" using assms(2) k by simp
  ultimately have "scale m d = 0" using scale_neg_real [of d m] assms(2) by simp
  then show False using assms(1) by simp
qed

section \<open>The error of a product\<close>

lemma on_grid:
  assumes "\<bar>x\<bar> < pow2 (M + 1)" "approximates x P1 ia" "P1 \<le> M + 1"
  shows "\<bar>of_int ia * pow2 P1\<bar> \<le> pow2 (M + 1)"
proof -
  define N where "N = nat (M + 1 - P1)"
  have g: "pow2 (M + 1) = 2 ^ N * pow2 P1"
  proof -
    have "pow2 (M + 1) = pow2 ((M + 1 - P1) + P1)" by simp
    also have "\<dots> = pow2 (M + 1 - P1) * pow2 P1" by (simp only: pow2_add)
    also have "pow2 (M + 1 - P1) = 2 ^ N" using assms(3) by (simp add: pow2_nonneg_exp N_def)
    finally show ?thesis .
  qed
  have "\<bar>of_int ia * pow2 P1\<bar> < \<bar>x\<bar> + pow2 P1"
    using assms(2) unfolding approximates_def by linarith
  also have "\<dots> < 2 ^ N * pow2 P1 + pow2 P1" using assms(1) g by simp
  finally have "\<bar>of_int ia\<bar> * pow2 P1 < (2 ^ N + 1) * pow2 P1"
    by (simp add: abs_mult algebra_simps)
  then have "\<bar>of_int ia :: real\<bar> < 2 ^ N + 1"
    using mult_less_cancel_right_pos [of "pow2 P1"] by simp
  then have "(of_int \<bar>ia\<bar> :: real) < of_int (2 ^ N + 1)" by simp
  then have "\<bar>ia\<bar> < 2 ^ N + 1" by (simp only: of_int_less_iff)
  then have "\<bar>ia\<bar> \<le> 2 ^ N" by simp
  then have "(of_int \<bar>ia\<bar> :: real) \<le> of_int (2 ^ N)" by (simp only: of_int_le_iff)
  then have "\<bar>of_int ia :: real\<bar> * pow2 P1 \<le> 2 ^ N * pow2 P1"
    by (intro mult_right_mono) simp_all
  then show ?thesis by (simp add: g abs_mult)
qed

lemma product_error:
  fixes a b :: real
  assumes A: "approximates a P1 ia" and B: "approximates b P2 ib"
    and boundA: "\<bar>a\<bar> < pow2 (MA + 1)" and boundB: "\<bar>b\<bar> < pow2 (MB + 1)"
    and p2: "P2 = P - MA - 3" and p1: "P1 = P - MB - 3"
    and grid: "P1 \<le> MA + 1"
  shows "\<bar>of_int (bigMul ia ib) * pow2 (P1 + P2) - a * b\<bar> < pow2 (P - 1)"
proof -
  define X Y where "X = of_int ia * pow2 P1" and "Y = of_int ib * pow2 P2"
  have X: "\<bar>X\<bar> \<le> pow2 (MA + 1)" unfolding X_def by (rule on_grid [OF boundA A grid])
  have dY: "\<bar>Y - b\<bar> < pow2 P2" and dX: "\<bar>X - a\<bar> < pow2 P1"
    using A B by (simp_all add: approximates_def X_def Y_def)
  have e: "of_int (bigMul ia ib) * pow2 (P1 + P2) - a * b = X * (Y - b) + b * (X - a)"
    by (simp add: bigMul_def X_def Y_def pow2_add algebra_simps)
  have q: "pow2 (MA + 1) * pow2 P2 = pow2 (P - 2)" "pow2 (MB + 1) * pow2 P1 = pow2 (P - 2)"
    by (simp_all add: p1 p2 flip: pow2_add)
  have 1: "\<bar>X * (Y - b)\<bar> < pow2 (P - 2)"
  proof -
    have "\<bar>X * (Y - b)\<bar> = \<bar>X\<bar> * \<bar>Y - b\<bar>" by (simp add: abs_mult)
    also have "\<dots> \<le> pow2 (MA + 1) * \<bar>Y - b\<bar>" using X by (intro mult_right_mono) simp_all
    also have "\<dots> < pow2 (MA + 1) * pow2 P2" using dY by (intro mult_strict_left_mono) simp_all
    finally show ?thesis by (simp add: q)
  qed
  have 2: "\<bar>b * (X - a)\<bar> \<le> pow2 (P - 2)"
  proof -
    have "\<bar>b * (X - a)\<bar> = \<bar>b\<bar> * \<bar>X - a\<bar>" by (simp add: abs_mult)
    also have "\<dots> \<le> pow2 (MB + 1) * pow2 P1"
      using boundB dX by (intro mult_mono) simp_all
    finally show ?thesis by (simp add: q)
  qed
  have "pow2 (P - 2) + pow2 (P - 2) = pow2 (P - 1)"
    using pow2_double [of "P - 2"] by simp
  then show ?thesis unfolding e using 1 2 by linarith
qed

lemma product_rounded:
  assumes "\<bar>of_int pr * pow2 (P1 + P2) - x\<bar> < pow2 (P - 1)" "sint s = P1 + P2 - P"
  shows "approximates x P (scale pr s)"
proof -
  have e: "\<bar>of_int (scale pr s) - of_int pr * pow2 (P1 + P2 - P)\<bar> \<le> 1 / 2"
    using scale_error [of pr s] assms(2) by simp
  have "pow2 (P1 + P2 - P) * pow2 P = pow2 (P1 + P2)" by (simp flip: pow2_add)
  then have "of_int (scale pr s) * pow2 P - of_int pr * pow2 (P1 + P2)
      = (of_int (scale pr s) - of_int pr * pow2 (P1 + P2 - P)) * pow2 P"
    by (simp add: algebra_simps)
  then have "\<bar>of_int (scale pr s) * pow2 P - of_int pr * pow2 (P1 + P2)\<bar>
      = \<bar>of_int (scale pr s) - of_int pr * pow2 (P1 + P2 - P)\<bar> * pow2 P"
    by (simp add: abs_mult)
  then have "\<bar>of_int (scale pr s) * pow2 P - of_int pr * pow2 (P1 + P2)\<bar> \<le> pow2 P / 2"
    using e mult_right_mono
      [of "\<bar>of_int (scale pr s) - of_int pr * pow2 (P1 + P2 - P)\<bar>" "1/2" "pow2 P"]
    by simp
  moreover have "pow2 P / 2 = pow2 (P - 1)" by (rule pow2_half)
  moreover have "pow2 (P - 1) + pow2 (P - 1) = pow2 P" using pow2_double [of "P - 1"] by simp
  ultimately show ?thesis unfolding approximates_def using assms(1) by linarith
qed

lemma small_product:
  assumes "\<bar>a\<bar> < pow2 j" "\<bar>b\<bar> < pow2 k" "j + k \<le> P"
  shows "approximates (a * b) P 0"
proof -
  have "\<bar>a * b\<bar> = \<bar>a\<bar> * \<bar>b\<bar>" by (simp add: abs_mult)
  also have "\<dots> < pow2 j * pow2 k"
    using assms(1,2) by (intro mult_strict_mono) simp_all
  also have "\<dots> = pow2 (j + k)" by (simp add: pow2_add)
  also have "\<dots> \<le> pow2 P" using assms(3) by (rule pow2_mono)
  finally show ?thesis by (simp add: approximates_zero)
qed

section \<open>Precision arithmetic on valid precisions\<close>

lemma sint_MinInt: "sint MinInt = - (2 ^ 63)"
  by (simp add: MinInt_def)

lemma valid_neg: "IsPrecisionValid p \<Longrightarrow> sint (- p) = - sint p"
  by (simp add: IsPrecisionValid_range sint_neg_no_wrap)

lemma valid_sub_1: "IsPrecisionValid p \<Longrightarrow> sint (p - 1) = sint p - 1"
  using sint_sub_no_wrap [of p 1] by (simp add: IsPrecisionValid_range)

lemma valid_sub_2: "IsPrecisionValid p \<Longrightarrow> sint (p - 2) = sint p - 2"
  using sint_sub_no_wrap [of p 2] by (simp add: IsPrecisionValid_range)

lemma valid_diff:
  "IsPrecisionValid p \<Longrightarrow> IsPrecisionValid q \<Longrightarrow> sint (q - p) = sint q - sint p"
  using sint_sub_no_wrap [of q p] by (simp add: IsPrecisionValid_range)

lemma unwrap_signed:
  fixes d M B :: int
  assumes "0 < B" "2 * B \<le> M" "- B - M < d" "d < B + M"
    and "- B \<le> (d + M) mod (2 * M) - M" "(d + M) mod (2 * M) - M < B"
  shows "(d + M) mod (2 * M) - M = d"
proof -
  consider "d + M < 0" | "0 \<le> d + M \<and> d + M < 2 * M" | "2 * M \<le> d + M" by linarith
  then show ?thesis
  proof cases
    case 1
    have "(d + M) mod (2 * M) = (d + M + 2 * M) mod (2 * M)" by (simp only: mod_add_self2)
    also have "\<dots> = d + M + 2 * M" using 1 assms(1-3) by (intro mod_pos_pos_trivial) linarith+
    finally show ?thesis using assms 1 by linarith
  next
    case 2
    then have "(d + M) mod (2 * M) = d + M" by (intro mod_pos_pos_trivial) linarith+
    then show ?thesis by simp
  next
    case 3
    have "(d + M) mod (2 * M) = (d + M - 2 * M) mod (2 * M)" by (simp only: minus_mod_self2)
    also have "\<dots> = d + M - 2 * M" using 3 assms(1,2,4) by (intro mod_pos_pos_trivial) linarith+
    finally show ?thesis using assms 3 by linarith
  qed
qed

lemma valid_sub_valid:
  assumes "IsPrecisionValid p" "IsPrecisionValid (p - n)"
  shows "sint (p - n) = sint p - sint n"
proof -
  define d where "d = sint p - sint n"
  have "p - n = word_of_int d" by (simp add: d_def)
  then have w: "sint (p - n) = (d + 2 ^ 63) mod (2 * 2 ^ 63) - 2 ^ 63"
    using int_word_sint [of d, where 'a = 64] by simp
  have r: "- (2 ^ 60) - 2 ^ 63 < d" "d < 2 ^ 60 + 2 ^ 63"
    using assms(1) sint_ge [of n] sint_lt [of n] by (simp_all add: IsPrecisionValid_range d_def)
  have v: "- (2 ^ 60) \<le> (d + 2 ^ 63) mod (2 * 2 ^ 63) - 2 ^ 63"
    "(d + 2 ^ 63) mod (2 * 2 ^ 63) - 2 ^ 63 < 2 ^ 60"
    using assms(2) unfolding w [symmetric] by (simp_all add: IsPrecisionValid_range)
  have "(d + 2 ^ 63) mod (2 * 2 ^ 63) - 2 ^ 63 = d"
    by (rule unwrap_signed [OF _ _ r v]) simp_all
  then show ?thesis using w by (simp add: d_def)
qed

lemma half_precision:
  assumes "IsPrecisionValid p"
  shows "sint (signed_drop_bit 1 p - 1) = sint p div 2 - 1"
    and "IsPrecisionValid (signed_drop_bit 1 p - 1 - 1)"
    and "sint (signed_drop_bit 1 p - 1 - 1) = sint p div 2 - 2"
proof -
  have h: "sint (signed_drop_bit 1 p) = sint p div 2"
    by (simp add: sint_signed_drop_bit_eq drop_bit_eq_div)
  have r: "- (2 ^ 60) \<le> sint p" "sint p < 2 ^ 60"
    using assms by (simp_all add: IsPrecisionValid_range)
  show 1: "sint (signed_drop_bit 1 p - 1) = sint p div 2 - 1"
    using sint_sub_no_wrap [of "signed_drop_bit 1 p" 1] h r by simp
  show 3: "sint (signed_drop_bit 1 p - 1 - 1) = sint p div 2 - 2"
    using sint_sub_no_wrap [of "signed_drop_bit 1 p - 1" 1] 1 r by simp
  show "IsPrecisionValid (signed_drop_bit 1 p - 1 - 1)"
    using 3 r by (simp add: IsPrecisionValid_range, arith)
qed

lemma msd_word:
  assumes "IsPrecisionValid q" "B < 2 ^ 62"
  shows "sint (q + of_nat B - 1) = sint q + int B - 1"
proof -
  have b: "sint (of_nat B :: goint) = int B"
    using sint_word_of_int [of "int B"] assms(2) by simp
  have r: "- (2 ^ 60) \<le> sint q" "sint q < 2 ^ 60"
    using assms(1) by (simp_all add: IsPrecisionValid_range)
  have 1: "sint (q + of_nat B) = sint q + int B"
    using sint_add_no_wrap [of q "of_nat B"] b r assms(2) by simp
  show ?thesis using sint_sub_no_wrap [of "q + of_nat B" 1] 1 r assms(2) by simp
qed

lemma operand_precision:
  assumes "IsPrecisionValid p" "- (2 ^ 60) - 1 \<le> sint m" "sint m \<le> 2 ^ 60 + 2 ^ 62"
  shows "sint (p - m - 3) = sint p - sint m - 3"
proof -
  have r: "- (2 ^ 60) \<le> sint p" "sint p < 2 ^ 60"
    using assms(1) by (simp_all add: IsPrecisionValid_range)
  have 1: "sint (p - m) = sint p - sint m"
    using sint_sub_no_wrap [of p m] r assms(2,3) by simp
  show ?thesis using sint_sub_no_wrap [of "p - m" 3] 1 r assms(2,3) by simp
qed

lemma scale_digits:
  assumes "IsPrecisionValid p" "IsPrecisionValid p1" "IsPrecisionValid p2"
  shows "sint (p1 + p2 - p) = sint p1 + sint p2 - sint p"
proof -
  have r: "- (2 ^ 60) \<le> sint p" "sint p < 2 ^ 60" "- (2 ^ 60) \<le> sint p1" "sint p1 < 2 ^ 60"
    "- (2 ^ 60) \<le> sint p2" "sint p2 < 2 ^ 60"
    using assms by (simp_all add: IsPrecisionValid_range)
  have 1: "sint (p1 + p2) = sint p1 + sint p2"
    using sint_add_no_wrap [of p1 p2] r by simp
  show ?thesis using sint_sub_no_wrap [of "p1 + p2" p] 1 r by simp
qed

lemma scale_zero [simp]: "scale a 0 = a"
  by (simp add: scale_def bigLsh_def word_sle_eq)

section \<open>The driver and the tracker\<close>

lemma Approximate_invalid:
  "\<not> IsPrecisionValid p \<Longrightarrow> Approximate K c p h = Inr (None, h)"
  by (simp add: Approximate.simps)

lemma Approximate_shape:
  assumes "IsPrecisionValid p" "Approximate K c p h = Inr (r, h')"
  shows "\<exists>t. tracker c = Some t \<and>
     ((h' = h \<and> IsValid (trackers h t) \<and> sint (MinPrecision (trackers h t)) \<le> sint p \<and>
       (\<exists>m. MaxApproximation (trackers h t) = Some m \<and>
            r = Some (scale m (MinPrecision (trackers h t) - p)))) \<or>
      (\<not> (IsValid (trackers h t) \<and> sint (MinPrecision (trackers h t)) \<le> sint p) \<and>
       (\<exists>h1. approximate K c p h = Inr (r, h1) \<and>
          h' = h1\<lparr>trackers := (trackers h1)
                  (t := \<lparr>IsValid = True, MaxApproximation = r, MinPrecision = p\<rparr>)\<rparr>)))"
  using assms
  by (auto simp: Approximate.simps Get_def Set_def word_sle_eq tracker_overwrite
      split: option.splits sum.splits prod.splits if_splits bool.splits)

lemma Approximate_tracker:
  assumes "IsPrecisionValid p" "Approximate K c p h = Inr (r, h')"
  shows "\<exists>t. tracker c = Some t \<and> IsValid (trackers h' t) \<and>
     sint (MinPrecision (trackers h' t)) \<le> sint p \<and>
     (case r of
        Some a \<Rightarrow> (\<exists>m. MaxApproximation (trackers h' t) = Some m \<and>
                      a = scale m (MinPrecision (trackers h' t) - p))
      | None \<Rightarrow> MaxApproximation (trackers h' t) = None)"
  using Approximate_shape [OF assms] by (cases r) auto

lemma trackersOk_update:
  assumes "trackersOk V h" "IsPrecisionValid p" "\<And>a. r = Some a \<Longrightarrow> approximates (V t) (sint p) a"
  shows "trackersOk V (h\<lparr>trackers := (trackers h)
            (t := \<lparr>IsValid = True, MaxApproximation = r, MinPrecision = p\<rparr>)\<rparr>)"
  using assms by (auto simp: trackersOk_def)

lemma driver_from_method:
  assumes M: "methodOk K V c" and R: "rootOk V c"
  shows "driverOk K V c"
  unfolding driverOk_def
proof (intro allI impI)
  fix p h r h'
  assume "trackersOk V h \<and> Approximate K c p h = Inr (r, h')"
  then have T: "trackersOk V h" and A: "Approximate K c p h = Inr (r, h')" by simp_all
  show "trackersOk V h' \<and> (\<forall>a. r = Some a \<longrightarrow> IsPrecisionValid p \<and> approximates (val c) (sint p) a)"
  proof (cases "IsPrecisionValid p")
    case False
    then show ?thesis using A T by (simp add: Approximate_invalid)
  next
    case True
    from Approximate_shape [OF True A] obtain t where t: "tracker c = Some t"
      and sh: "(h' = h \<and> IsValid (trackers h t) \<and> sint (MinPrecision (trackers h t)) \<le> sint p \<and>
       (\<exists>m. MaxApproximation (trackers h t) = Some m \<and>
            r = Some (scale m (MinPrecision (trackers h t) - p)))) \<or>
      (\<not> (IsValid (trackers h t) \<and> sint (MinPrecision (trackers h t)) \<le> sint p) \<and>
       (\<exists>h1. approximate K c p h = Inr (r, h1) \<and>
          h' = h1\<lparr>trackers := (trackers h1)
                  (t := \<lparr>IsValid = True, MaxApproximation = r, MinPrecision = p\<rparr>)\<rparr>))"
      by blast
    have v: "V t = val c" using R t by (simp add: rootOk_def)
    from sh show ?thesis
    proof (elim disjE conjE exE)
      fix m
      assume h: "h' = h" and valid: "IsValid (trackers h t)"
        and le: "sint (MinPrecision (trackers h t)) \<le> sint p"
        and m: "MaxApproximation (trackers h t) = Some m"
        and r: "r = Some (scale m (MinPrecision (trackers h t) - p))"
      have q: "IsPrecisionValid (MinPrecision (trackers h t))"
        and a: "approximates (V t) (sint (MinPrecision (trackers h t))) m"
        using T valid m by (auto simp: trackersOk_def)
      have "approximates (val c) (sint p) (scale m (MinPrecision (trackers h t) - p))"
        using approximates_rescale [OF a valid_diff [OF True q] le] v by simp
      then show ?thesis using h T r True by simp
    next
      fix h1
      assume ap: "approximate K c p h = Inr (r, h1)"
        and h': "h' = h1\<lparr>trackers := (trackers h1)
                  (t := \<lparr>IsValid = True, MaxApproximation = r, MinPrecision = p\<rparr>)\<rparr>"
      from M T True ap have T1: "trackersOk V h1"
        and a: "\<And>a. r = Some a \<Longrightarrow> approximates (val c) (sint p) a"
        unfolding methodOk_def by blast+
      have "trackersOk V h'" unfolding h'
        using T1 True a v by (intro trackersOk_update) simp_all
      then show ?thesis using a True by simp
    qed
  qed
qed

section \<open>The most significant digit\<close>

lemma tracker_size:
  assumes "\<bar>V t\<bar> < pow2 sizeLimit" "trackersOk V h" "IsValid (trackers h t)"
    "MaxApproximation (trackers h t) = Some mm"
  shows "BitLen mm < 2 ^ 62"
proof -
  have q: "IsPrecisionValid (MinPrecision (trackers h t))"
    and a: "approximates (V t) (sint (MinPrecision (trackers h t))) mm"
    using assms(2-4) by (auto simp: trackersOk_def)
  have b: "\<bar>V t\<bar> < pow2 sizeLimit" by (rule assms(1))
  have "- (2 ^ 60) \<le> sint (MinPrecision (trackers h t))"
    using q by (simp add: IsPrecisionValid_range)
  moreover have "0 \<le> sizeLimit + 2 ^ 60" by (simp add: sizeLimit_def)
  ultimately have "int (BitLen mm) \<le> sizeLimit + 2 ^ 60 + 1"
    using approximation_size [OF b a, of "2 ^ 60"] by simp
  then have "int (BitLen mm) < int (2 ^ 62)" by (simp add: sizeLimit_def)
  then show ?thesis by (simp only: of_nat_less_iff)
qed

lemma knownMSD_value:
  assumes "tracker c = Some t" "MaxApproximation (trackers h t) = Some mm"
    "IsPrecisionValid (MinPrecision (trackers h t))" "BitLen mm < 2 ^ 62"
  shows "\<exists>m. knownMSD c h = Inr m \<and>
           sint m = sint (MinPrecision (trackers h t)) + int (BitLen mm) - 1"
  using assms by (simp add: knownMSD_def msd_word)

lemma msd_cases:
  assumes M: "msd K c n h = Inr (m, h')"
  obtains (known) t mm where "tracker c = Some t" "IsValid (trackers h t)"
      "MaxApproximation (trackers h t) = Some mm" "\<not> (mm \<le> 1 \<and> - 1 \<le> mm)"
      "knownMSD c h = Inr m" "h' = h"
    | (small) t x mm where "tracker c = Some t" "Approximate K c (n - 1) h = Inr (x, h')"
      "MaxApproximation (trackers h' t) = Some mm" "\<bar>mm\<bar> \<le> 1" "m = MinInt"
    | (probed) t x mm where "tracker c = Some t" "Approximate K c (n - 1) h = Inr (x, h')"
      "MaxApproximation (trackers h' t) = Some mm" "\<not> \<bar>mm\<bar> \<le> 1" "knownMSD c h' = Inr m"
proof -
  from M obtain t where t: "tracker c = Some t"
    by (cases "tracker c") (simp_all add: msd.simps)
  define g where "g = (if \<not> IsValid (trackers h t) then Inr True
                 else (case MaxApproximation (trackers h t) of
                         None \<Rightarrow> Inl NilDereference
                       | Some m \<Rightarrow> Inr (m \<le> 1 \<and> - 1 \<le> m)))"
  have E: "msd K c n h =
      (case g of
         Inl e \<Rightarrow> Inl e
       | Inr False \<Rightarrow>
           (case knownMSD c h of Inl e \<Rightarrow> Inl e | Inr m \<Rightarrow> Inr (m, h))
       | Inr True \<Rightarrow>
           (case Approximate K c (n - 1) h of
              Inl e \<Rightarrow> Inl e
            | Inr (x, h1) \<Rightarrow>
                (case MaxApproximation (trackers h1 t) of
                   None \<Rightarrow> Inl NilDereference
                 | Some m \<Rightarrow>
                     if bigAbs m \<le> 1 then Inr (MinInt, h1)
                     else (case knownMSD c h1 of
                             Inl e \<Rightarrow> Inl e
                           | Inr m' \<Rightarrow> Inr (m', h1)))))"
    unfolding g_def by (subst msd.simps) (simp only: t option.case)
  show thesis
  proof (cases g)
    case (Inl e)
    then show thesis using M E by simp
  next
    case (Inr b)
    show thesis
    proof (cases b)
      case False
      then have g: "g = Inr False" using Inr by simp
      then have v: "IsValid (trackers h t)" unfolding g_def by (simp split: if_splits)
      from g v obtain mm where mm: "MaxApproximation (trackers h t) = Some mm"
        and nb: "\<not> (mm \<le> 1 \<and> - 1 \<le> mm)"
        unfolding g_def by (cases "MaxApproximation (trackers h t)") simp_all
      from M E g have "(case knownMSD c h of Inl e \<Rightarrow> Inl e | Inr m \<Rightarrow> Inr (m, h)) = Inr (m, h')"
        by simp
      then have "knownMSD c h = Inr m \<and> h' = h"
        by (cases "knownMSD c h") simp_all
      then show thesis using known t v mm nb by blast
    next
      case True
      then have g: "g = Inr True" using Inr by simp
      from M E g obtain x h1 where A: "Approximate K c (n - 1) h = Inr (x, h1)"
        by (cases "Approximate K c (n - 1) h") auto
      from M E g A obtain mm where mm: "MaxApproximation (trackers h1 t) = Some mm"
        by (cases "MaxApproximation (trackers h1 t)") auto
      show thesis
      proof (cases "\<bar>mm\<bar> \<le> 1")
        case True
        then have "m = MinInt" "h' = h1" using M E g A mm by (simp_all add: bigAbs_def)
        then show thesis using small t A mm True by blast
      next
        case False
        then have "(case knownMSD c h1 of Inl e \<Rightarrow> Inl e | Inr m' \<Rightarrow> Inr (m', h1)) = Inr (m, h')"
          using M E g A mm by (simp add: bigAbs_def)
        then have "knownMSD c h1 = Inr m \<and> h' = h1"
          by (cases "knownMSD c h1") simp_all
        then show thesis using probed t A mm False by blast
      qed
    qed
  qed
qed

lemma msd_post:
  assumes D: "driverOk K V c" and R: "rootOk V c" and B: "\<bar>val c\<bar> < pow2 sizeLimit"
    and T: "trackersOk V h" and n: "IsPrecisionValid (n - 1)" and n1: "sint (n - 1) = sint n - 1"
    and M: "msd K c n h = Inr (m, h')"
  shows "trackersOk V h' \<and>
     (m = MinInt \<longrightarrow> \<bar>val c\<bar> < pow2 (sint n)) \<and>
     (m \<noteq> MinInt \<longrightarrow>
        (\<exists>t mm. tracker c = Some t \<and> IsValid (trackers h' t) \<and>
           MaxApproximation (trackers h' t) = Some mm \<and> 2 \<le> \<bar>mm\<bar> \<and>
           sint m = sint (MinPrecision (trackers h' t)) + int (BitLen mm) - 1))"
  using M
proof (cases rule: msd_cases)
  case (known t mm)
  have q: "IsPrecisionValid (MinPrecision (trackers h t))"
    using T known(2,3) by (auto simp: trackersOk_def)
  have "\<bar>V t\<bar> < pow2 sizeLimit" using B R known(1) by (simp add: rootOk_def)
  then have s: "BitLen mm < 2 ^ 62" by (rule tracker_size [OF _ T known(2,3)])
  from knownMSD_value [OF known(1,3) q s] known(5)
  have m: "sint m = sint (MinPrecision (trackers h t)) + int (BitLen mm) - 1" by simp
  have "- (2 ^ 60) \<le> sint (MinPrecision (trackers h t))"
    using q by (simp add: IsPrecisionValid_range)
  then have "sint m \<noteq> - (2 ^ 63)" using m by simp
  then have "m \<noteq> MinInt" using sint_MinInt by auto
  moreover have "2 \<le> \<bar>mm\<bar>" using known(4) by linarith
  ultimately show ?thesis using T known m by auto
next
  case (small t x mm)
  from D T small(2) have T': "trackersOk V h'" unfolding driverOk_def by blast
  from Approximate_tracker [OF n small(2)] small(1)
  have v: "IsValid (trackers h' t)" and le: "sint (MinPrecision (trackers h' t)) \<le> sint (n - 1)"
    by auto
  have a: "approximates (V t) (sint (MinPrecision (trackers h' t))) mm"
    using T' v small(3) by (auto simp: trackersOk_def)
  have "\<bar>mm\<bar> < 2 ^ 1" using small(4) by simp
  then have "BitLen mm \<le> 1" by (rule BitLen_le)
  then have "sint (MinPrecision (trackers h' t)) + int (BitLen mm) \<le> sint n"
    using le n1 by linarith
  then have "pow2 (sint (MinPrecision (trackers h' t)) + int (BitLen mm)) \<le> pow2 (sint n)"
    by (rule pow2_mono)
  then have "\<bar>V t\<bar> < pow2 (sint n)" using msd_upper [OF a] by linarith
  moreover have "V t = val c" using R small(1) by (simp add: rootOk_def)
  ultimately show ?thesis using T' small(5) by simp
next
  case (probed t x mm)
  from D T probed(2) have T': "trackersOk V h'" unfolding driverOk_def by blast
  from Approximate_tracker [OF n probed(2)] probed(1)
  have v: "IsValid (trackers h' t)" by auto
  have q: "IsPrecisionValid (MinPrecision (trackers h' t))"
    using T' v probed(3) by (auto simp: trackersOk_def)
  have "\<bar>V t\<bar> < pow2 sizeLimit" using B R probed(1) by (simp add: rootOk_def)
  then have s: "BitLen mm < 2 ^ 62" by (rule tracker_size [OF _ T' v probed(3)])
  from knownMSD_value [OF probed(1,3) q s] probed(5)
  have m: "sint m = sint (MinPrecision (trackers h' t)) + int (BitLen mm) - 1" by simp
  have "- (2 ^ 60) \<le> sint (MinPrecision (trackers h' t))"
    using q by (simp add: IsPrecisionValid_range)
  then have "sint m \<noteq> - (2 ^ 63)" using m by simp
  then have "m \<noteq> MinInt" using sint_MinInt by auto
  moreover have "2 \<le> \<bar>mm\<bar>" using probed(4) by linarith
  ultimately show ?thesis using T' probed(1,3) v m by auto
qed

section \<open>The methods of the leaves and of the exact operators\<close>

lemma method_integer: "methodOk K V (constructiveInteger t i)"
  unfolding methodOk_def
  by (auto simp: valid_neg intro: approximates_integer)

lemma method_negation:
  assumes "driverOk K V r"
  shows "methodOk K V (constructiveNegation t r)"
  unfolding methodOk_def
proof (intro allI impI)
  fix p h x h'
  assume "trackersOk V h \<and> IsPrecisionValid p \<and>
    approximate K (constructiveNegation t r) p h = Inr (x, h')"
  then have T: "trackersOk V h" and E: "approximate K (constructiveNegation t r) p h = Inr (x, h')"
    by simp_all
  from E obtain y where A: "Approximate K r p h = Inr (Some y, h')" and x: "x = Some (bigNeg y)"
    by (auto split: sum.splits prod.splits option.splits)
  from assms T A have "trackersOk V h'" "approximates (val r) (sint p) y"
    unfolding driverOk_def by blast+
  then show "trackersOk V h' \<and>
      (\<forall>a. x = Some a \<longrightarrow> approximates (val (constructiveNegation t r)) (sint p) a)"
    using x approximates_neg [of "val r" "sint p" y] by (simp add: bigNeg_def)
qed

lemma method_shift:
  assumes "driverOk K V r"
  shows "methodOk K V (constructiveShift t r n)"
  unfolding methodOk_def
proof (intro allI impI)
  fix p h x h'
  assume "trackersOk V h \<and> IsPrecisionValid p \<and>
    approximate K (constructiveShift t r n) p h = Inr (x, h')"
  then have T: "trackersOk V h" and P: "IsPrecisionValid p"
    and A: "Approximate K r (p - n) h = Inr (x, h')"
    by simp_all
  from assms T A have T': "trackersOk V h'"
    and a: "\<And>y. x = Some y \<Longrightarrow> IsPrecisionValid (p - n) \<and> approximates (val r) (sint (p - n)) y"
    unfolding driverOk_def by blast+
  have "approximates (val r * pow2 (sint n)) (sint p) y" if "x = Some y" for y
  proof -
    from a [OF that] have v: "IsPrecisionValid (p - n)"
      and "approximates (val r) (sint (p - n)) y" by simp_all
    then have "approximates (val r) (sint p - sint n) y"
      using valid_sub_valid [OF P v] by simp
    then show ?thesis by (rule approximates_shift)
  qed
  then show "trackersOk V h' \<and>
      (\<forall>a. x = Some a \<longrightarrow> approximates (val (constructiveShift t r n)) (sint p) a)"
    using T' by simp
qed

lemma method_addition:
  assumes "driverOk K V a" "driverOk K V b"
  shows "methodOk K V (constructiveAddition t a b)"
  unfolding methodOk_def
proof (intro allI impI)
  fix p h x h'
  assume "trackersOk V h \<and> IsPrecisionValid p \<and>
    approximate K (constructiveAddition t a b) p h = Inr (x, h')"
  then have T: "trackersOk V h" and P: "IsPrecisionValid p"
    and E: "approximate K (constructiveAddition t a b) p h = Inr (x, h')"
    by simp_all
  from E obtain u v h1 where A: "Approximate K a (p - 2) h = Inr (Some u, h1)"
    and B: "Approximate K b (p - 2) h1 = Inr (Some v, h')"
    and x: "x = Some (scale (bigAdd u v) (- 2))"
    by (auto split: sum.splits prod.splits option.splits)
  from assms(1) T A have T1: "trackersOk V h1" and u: "approximates (val a) (sint (p - 2)) u"
    unfolding driverOk_def by blast+
  from assms(2) T1 B have T': "trackersOk V h'" and v: "approximates (val b) (sint (p - 2)) v"
    unfolding driverOk_def by blast+
  have "approximates (val a + val b) (sint p) (scale (bigAdd u v) (- 2))"
    using u v by (simp add: valid_sub_2 [OF P] approximates_add)
  then show "trackersOk V h' \<and>
      (\<forall>y. x = Some y \<longrightarrow> approximates (val (constructiveAddition t a b)) (sint p) y)"
    using T' x by simp
qed

lemma method_named: "methodOk K V (named r nm) = methodOk K V r"
  by (simp add: methodOk_def)

lemma rootOk_named: "rootOk V (named r nm) = rootOk V r"
  by (simp add: rootOk_def)

section \<open>Multiplication\<close>

lemma multiplication_unfold:
  "approximate K (constructiveMultiplication t a b) p h =
     (case msd K a (signed_drop_bit 1 p - 1) h of
        Inl e \<Rightarrow> Inl e
      | Inr (ma, h1) \<Rightarrow>
          (case (if ma = MinInt then msd K b (signed_drop_bit 1 p - 1) h1 else Inr (ma, h1)) of
             Inl e \<Rightarrow> Inl e
           | Inr (ma', h2) \<Rightarrow>
               if ma' = MinInt then Inr (Some 0, h2) else mulTail K a b p ma' h2))"
proof -
  have eta: "(case x of Inl e \<Rightarrow> Inl e | Inr (mb, h2) \<Rightarrow> Inr (mb, h2)) = x"
    for x :: "panic + (goint \<times> heap)"
    by (cases x) auto
  have eta': "(case x of Inl e \<Rightarrow> Inl e | Inr y \<Rightarrow> Inr y) = x"
    for x :: "panic + (goint \<times> heap)"
    by (cases x) auto
  show ?thesis
    unfolding mulTail_def
    by (simp add: Let_def eta eta' del: One_nat_def cong: sum.case_cong if_cong)
qed

lemma tracker_bound:
  assumes "trackersOk V h" "rootOk V c" "tracker c = Some t" "IsValid (trackers h t)"
    "MaxApproximation (trackers h t) = Some m"
  shows "\<bar>val c\<bar> < pow2 (sint (MinPrecision (trackers h t)) + int (BitLen m))"
proof -
  have "approximates (V t) (sint (MinPrecision (trackers h t))) m"
    using assms(1,4,5) by (auto simp: trackersOk_def)
  moreover have "V t = val c" using assms(2,3) by (simp add: rootOk_def)
  ultimately show ?thesis using msd_upper by simp
qed

lemma mulTail_zero:
  assumes b: "\<bar>vb\<bar> < pow2 P2" and P2: "P2 = P - MA - 3" and HP: "2 * HP \<le> P - 2"
    and A1: "\<bar>va\<bar> < pow2 (MA + 1) \<or> (\<bar>va\<bar> < pow2 HP \<and> \<bar>vb\<bar> < pow2 (MA + 1))"
  shows "approximates (va * vb) P 0"
  using A1
proof
  assume "\<bar>va\<bar> < pow2 (MA + 1)"
  then show ?thesis using b by (rule small_product) (simp add: P2)
next
  assume r: "\<bar>va\<bar> < pow2 HP \<and> \<bar>vb\<bar> < pow2 (MA + 1)"
  show ?thesis
  proof (cases "HP \<le> MA + 3")
    case True
    show ?thesis using r b True by (intro small_product [of va HP vb P2]) (simp_all add: P2)
  next
    case False
    then have "HP + (MA + 1) \<le> P" using HP by linarith
    then show ?thesis using r by (intro small_product [of va HP vb "MA + 1"]) simp_all
  qed
qed

lemma mulTail_ok:
  assumes Da: "driverOk K V a" and Db: "driverOk K V b"
    and Ra: "rootOk V a" and Rb: "rootOk V b" and B: "\<bar>val b\<bar> < pow2 sizeLimit"
    and T: "trackersOk V h2" and P: "IsPrecisionValid p"
    and range: "- (2 ^ 60) - 1 \<le> sint ma" "sint ma \<le> 2 ^ 60 + 2 ^ 62"
    and A1: "\<bar>val a\<bar> < pow2 (sint ma + 1) \<or>
       (\<bar>val a\<bar> < pow2 (sint p div 2 - 1) \<and>
        (\<exists>t m0. tracker b = Some t \<and> IsValid (trackers h2 t) \<and>
           MaxApproximation (trackers h2 t) = Some m0 \<and> 2 \<le> \<bar>m0\<bar> \<and>
           sint ma = sint (MinPrecision (trackers h2 t)) + int (BitLen m0) - 1))"
    and E: "mulTail K a b p ma h2 = Inr (r, h')"
  shows "trackersOk V h' \<and> (\<forall>x. r = Some x \<longrightarrow> approximates (val a * val b) (sint p) x)"
proof -
  define p2 where "p2 = p - ma - 3"
  have P2: "sint p2 = sint p - sint ma - 3"
    unfolding p2_def by (rule operand_precision [OF P range])
  from E obtain ib h3 where B1: "Approximate K b p2 h2 = Inr (Some ib, h3)"
    unfolding mulTail_def Let_def p2_def [symmetric]
    by (cases "Approximate K b p2 h2") (auto split: option.splits)
  from Db T B1 have T3: "trackersOk V h3" and v2: "IsPrecisionValid p2"
    and ab: "approximates (val b) (sint p2) ib"
    unfolding driverOk_def by blast+
  have HP: "2 * (sint p div 2 - 1) \<le> sint p - 2" by arith
  show ?thesis
  proof (cases "ib = 0")
    case True
    then have r: "r = Some 0" "h' = h3"
      using E B1 unfolding mulTail_def Let_def p2_def [symmetric] by simp_all
    have b: "\<bar>val b\<bar> < pow2 (sint p2)" using ab True by (simp add: approximates_zero)
    have "\<bar>val a\<bar> < pow2 (sint ma + 1) \<or>
        (\<bar>val a\<bar> < pow2 (sint p div 2 - 1) \<and> \<bar>val b\<bar> < pow2 (sint ma + 1))"
      using A1
    proof
      assume "\<bar>val a\<bar> < pow2 (sint ma + 1)"
      then show ?thesis by simp
    next
      assume "\<bar>val a\<bar> < pow2 (sint p div 2 - 1) \<and>
        (\<exists>t m0. tracker b = Some t \<and> IsValid (trackers h2 t) \<and>
           MaxApproximation (trackers h2 t) = Some m0 \<and> 2 \<le> \<bar>m0\<bar> \<and>
           sint ma = sint (MinPrecision (trackers h2 t)) + int (BitLen m0) - 1)"
      then obtain t m0 where a: "\<bar>val a\<bar> < pow2 (sint p div 2 - 1)"
        and t: "tracker b = Some t" "IsValid (trackers h2 t)"
          "MaxApproximation (trackers h2 t) = Some m0"
        and ma: "sint ma = sint (MinPrecision (trackers h2 t)) + int (BitLen m0) - 1"
        by blast
      have "\<bar>val b\<bar> < pow2 (sint (MinPrecision (trackers h2 t)) + int (BitLen m0))"
        by (rule tracker_bound [OF T Rb t])
      then show ?thesis using a ma by simp
    qed
    from mulTail_zero [OF b P2 HP this]
    show ?thesis using r T3 by simp
  next
    case False
    from Approximate_tracker [OF v2 B1] obtain t3 m3 where t3: "tracker b = Some t3"
      "IsValid (trackers h3 t3)" "MaxApproximation (trackers h3 t3) = Some m3"
      and le3: "sint (MinPrecision (trackers h3 t3)) \<le> sint p2"
      and ib: "ib = scale m3 (MinPrecision (trackers h3 t3) - p2)"
      by auto
    define q3 where "q3 = MinPrecision (trackers h3 t3)"
    have vq3: "IsPrecisionValid q3"
      using T3 t3(2,3) by (auto simp: trackersOk_def q3_def)
    have d3: "sint (q3 - p2) = - (sint p2 - sint q3)"
      using valid_diff [OF v2 vq3] by simp
    have size3: "sint p2 - sint q3 \<le> int (BitLen m3)"
      using scale_nonzero_size [OF _ d3] False ib le3 by (simp add: q3_def)
    have "\<bar>V t3\<bar> < pow2 sizeLimit" using B Rb t3(1) by (simp add: rootOk_def)
    then have s3: "BitLen m3 < 2 ^ 62" by (rule tracker_size [OF _ T3 t3(2,3)])
    from knownMSD_value [OF t3(1,3) _ s3] vq3 obtain mb
      where mb: "knownMSD b h3 = Inr mb" and MB: "sint mb = sint q3 + int (BitLen m3) - 1"
      by (auto simp: q3_def)
    have bb: "\<bar>val b\<bar> < pow2 (sint mb + 1)"
      using tracker_bound [OF T3 Rb t3] MB by (simp add: q3_def)
    have rq3: "- (2 ^ 60) \<le> sint q3" "sint q3 < 2 ^ 60"
      using vq3 by (simp_all add: IsPrecisionValid_range)
    have rb: "- (2 ^ 60) - 1 \<le> sint mb" "sint mb \<le> 2 ^ 60 + 2 ^ 62"
      using MB rq3 s3 by simp_all
    define p1 where "p1 = p - mb - 3"
    have P1: "sint p1 = sint p - sint mb - 3"
      unfolding p1_def by (rule operand_precision [OF P rb])
    have grid: "sint p1 \<le> sint ma + 1" using P1 P2 MB size3 by linarith
    have E2: "(case Approximate K a p1 h3 of
          Inl e \<Rightarrow> Inl e
        | Inr (None, h4) \<Rightarrow> Inl NilDereference
        | Inr (Some ia, h4) \<Rightarrow> Inr (Some (scale (bigMul ia ib) (p1 + p2 - p)), h4))
        = Inr (r, h')"
      using E B1 False mb unfolding mulTail_def Let_def p1_def p2_def
      by (simp add: sgn_if split: if_splits)
    from E2 obtain ia h4 where A4: "Approximate K a p1 h3 = Inr (Some ia, h4)"
      and r: "r = Some (scale (bigMul ia ib) (p1 + p2 - p))" "h' = h4"
      by (cases "Approximate K a p1 h3") (auto split: option.splits)
    from Da T3 A4 have T4: "trackersOk V h4" and v1: "IsPrecisionValid p1"
      and aa: "approximates (val a) (sint p1) ia"
      unfolding driverOk_def by blast+
    have ba: "\<bar>val a\<bar> < pow2 (sint ma + 1)"
      using A1
    proof
      assume "\<bar>val a\<bar> < pow2 (sint ma + 1)"
      then show ?thesis .
    next
      assume "\<bar>val a\<bar> < pow2 (sint p div 2 - 1) \<and>
        (\<exists>t m0. tracker b = Some t \<and> IsValid (trackers h2 t) \<and>
           MaxApproximation (trackers h2 t) = Some m0 \<and> 2 \<le> \<bar>m0\<bar> \<and>
           sint ma = sint (MinPrecision (trackers h2 t)) + int (BitLen m0) - 1)"
      then obtain t m0 where a: "\<bar>val a\<bar> < pow2 (sint p div 2 - 1)"
        and t: "tracker b = Some t" "IsValid (trackers h2 t)"
          "MaxApproximation (trackers h2 t) = Some m0" "2 \<le> \<bar>m0\<bar>"
        and ma: "sint ma = sint (MinPrecision (trackers h2 t)) + int (BitLen m0) - 1"
        by blast
      define q0 where "q0 = MinPrecision (trackers h2 t)"
      have vq0: "IsPrecisionValid q0"
        using T t(2,3) by (auto simp: trackersOk_def q0_def)
      have two: "2 \<le> int (BitLen m0)" using BitLen_ge_2 [OF t(4)] by simp
      have "sint p div 2 - 1 \<le> sint ma + 1"
      proof (cases "sint q0 \<le> sint p2")
        case True
        from Approximate_shape [OF v2 B1] t(1,2,3) True
        have "ib = scale m0 (q0 - p2)" by (auto simp: q0_def)
        moreover have "sint (q0 - p2) = - (sint p2 - sint q0)"
          using valid_diff [OF v2 vq0] by simp
        ultimately have "sint p2 - sint q0 \<le> int (BitLen m0)"
          using scale_nonzero_size [of m0 "q0 - p2" "sint p2 - sint q0"] False True by simp
        then show ?thesis using ma P2 unfolding q0_def [symmetric] by arith
      next
        case False
        then show ?thesis using ma P2 two unfolding q0_def [symmetric] by arith
      qed
      then have "pow2 (sint p div 2 - 1) \<le> pow2 (sint ma + 1)" by (rule pow2_mono)
      then show ?thesis using a by linarith
    qed
    have "\<bar>of_int (bigMul ia ib) * pow2 (sint p1 + sint p2) - val a * val b\<bar>
        < pow2 (sint p - 1)"
      by (rule product_error [OF aa ab ba bb P2 P1 grid])
    then have "approximates (val a * val b) (sint p) (scale (bigMul ia ib) (p1 + p2 - p))"
      by (rule product_rounded) (rule scale_digits [OF P v1 v2])
    then show ?thesis using r T4 by simp
  qed
qed

lemma method_multiplication:
  assumes Da: "driverOk K V a" and Db: "driverOk K V b"
    and Ra: "rootOk V a" and Rb: "rootOk V b"
    and Ba: "\<bar>val a\<bar> < pow2 sizeLimit" and Bb: "\<bar>val b\<bar> < pow2 sizeLimit"
  shows "methodOk K V (constructiveMultiplication t a b)"
  unfolding methodOk_def
proof (intro allI impI)
  fix p h r h'
  assume "trackersOk V h \<and> IsPrecisionValid p \<and>
    approximate K (constructiveMultiplication t a b) p h = Inr (r, h')"
  then have T: "trackersOk V h" and P: "IsPrecisionValid p"
    and E: "approximate K (constructiveMultiplication t a b) p h = Inr (r, h')"
    by simp_all
  define hp where "hp = signed_drop_bit 1 p - 1"
  note hpf = half_precision [OF P, folded hp_def]
  have hp1: "sint (hp - 1) = sint hp - 1" using hpf(1,3) by simp
  have HP: "sint hp = sint p div 2 - 1" by (rule hpf(1))
  note E' = E [unfolded multiplication_unfold, folded hp_def]
  from E' obtain ma h1 where Ma: "msd K a hp h = Inr (ma, h1)"
    by (cases "msd K a hp h") auto
  note pa = msd_post [OF Da Ra Ba T hpf(2) hp1 Ma]
  have T1: "trackersOk V h1" using pa by simp
  have known: "- (2 ^ 60) - 1 \<le> sint m \<and> sint m \<le> 2 ^ 60 + 2 ^ 62 \<and>
      \<bar>val c\<bar> < pow2 (sint m + 1)"
    if "trackersOk V g" "rootOk V c" "tracker c = Some u" "IsValid (trackers g u)"
      "MaxApproximation (trackers g u) = Some mm"
      "sint m = sint (MinPrecision (trackers g u)) + int (BitLen mm) - 1"
      "\<bar>val c\<bar> < pow2 sizeLimit"
    for g c u mm m
  proof -
    have q: "IsPrecisionValid (MinPrecision (trackers g u))"
      using that(1,4,5) by (auto simp: trackersOk_def)
    have "\<bar>V u\<bar> < pow2 sizeLimit" using that(2,3,7) by (simp add: rootOk_def)
    then have s: "BitLen mm < 2 ^ 62" by (rule tracker_size [OF _ that(1,4,5)])
    have "\<bar>val c\<bar> < pow2 (sint m + 1)"
      using tracker_bound [OF that(1,2,3,4,5)] that(6) by simp
    then show ?thesis using q s that(6) by (simp add: IsPrecisionValid_range)
  qed
  show "trackersOk V h' \<and>
      (\<forall>x. r = Some x \<longrightarrow> approximates (val (constructiveMultiplication t a b)) (sint p) x)"
  proof (cases "ma = MinInt")
    case False
    from pa False obtain u mm where u: "tracker a = Some u" "IsValid (trackers h1 u)"
      "MaxApproximation (trackers h1 u) = Some mm"
      "sint ma = sint (MinPrecision (trackers h1 u)) + int (BitLen mm) - 1"
      by blast
    note k = known [OF T1 Ra u Ba]
    from E' Ma False have tail: "mulTail K a b p ma h1 = Inr (r, h')" by simp
    have "trackersOk V h' \<and> (\<forall>x. r = Some x \<longrightarrow> approximates (val a * val b) (sint p) x)"
      by (rule mulTail_ok [OF Da Db Ra Rb Bb T1 P _ _ _ tail]) (use k in simp_all)
    then show ?thesis by simp
  next
    case True
    then have sa: "\<bar>val a\<bar> < pow2 (sint p div 2 - 1)" using pa HP by simp
    from E' Ma True obtain mb h2 where Mb: "msd K b hp h1 = Inr (mb, h2)"
      by (cases "msd K b hp h1") auto
    note pb = msd_post [OF Db Rb Bb T1 hpf(2) hp1 Mb]
    have T2: "trackersOk V h2" using pb by simp
    show ?thesis
    proof (cases "mb = MinInt")
      case True
      then have sb: "\<bar>val b\<bar> < pow2 (sint p div 2 - 1)" using pb HP by simp
      have "(sint p div 2 - 1) + (sint p div 2 - 1) \<le> sint p" by arith
      then have "approximates (val a * val b) (sint p) 0"
        by (rule small_product [OF sa sb])
      moreover have "r = Some 0" "h' = h2" using E' Ma \<open>ma = MinInt\<close> Mb True by simp_all
      ultimately show ?thesis using T2 by simp
    next
      case False
      from pb False obtain u mm where u: "tracker b = Some u" "IsValid (trackers h2 u)"
        "MaxApproximation (trackers h2 u) = Some mm" "2 \<le> \<bar>mm\<bar>"
        "sint mb = sint (MinPrecision (trackers h2 u)) + int (BitLen mm) - 1"
        by blast
      note k = known [OF T2 Rb u(1,2,3,5) Bb]
      from E' Ma \<open>ma = MinInt\<close> Mb False have tail: "mulTail K a b p mb h2 = Inr (r, h')"
        by simp
      have "trackersOk V h' \<and> (\<forall>x. r = Some x \<longrightarrow> approximates (val a * val b) (sint p) x)"
        by (rule mulTail_ok [OF Da Db Ra Rb Bb T2 P _ _ _ tail]) (use k sa u in blast)+
      then show ?thesis by simp
    qed
  qed
qed

section \<open>Magnitudes\<close>

lemma pow2_less_iff: "pow2 j < pow2 k \<longleftrightarrow> j < k"
proof
  assume a: "pow2 j < pow2 k"
  show "j < k"
  proof (rule ccontr)
    assume "\<not> j < k"
    then have "pow2 k \<le> pow2 j" by (intro pow2_mono) simp
    then show False using a by simp
  qed
next
  assume "j < k"
  then show "pow2 j < pow2 k" by (rule pow2_strict_mono)
qed

lemma dyadic_mono:
  assumes "dyadic x n" "n \<le> n'"
  shows "dyadic x n'"
proof -
  from assms(1) obtain k :: int where k: "x = of_int k * pow2 (- n)" by (auto simp: dyadic_def)
  have "pow2 (- n) = pow2 (n' - n) * pow2 (- n')" by (simp flip: pow2_add)
  also have "pow2 (n' - n) = of_int (2 ^ nat (n' - n))" using assms(2) by (simp add: pow2_of_int)
  finally have "x = of_int (k * 2 ^ nat (n' - n)) * pow2 (- n')" using k by simp
  then show ?thesis unfolding dyadic_def by blast
qed

lemma dyadic_add:
  assumes "dyadic x n" "dyadic y n"
  shows "dyadic (x + y) n"
proof -
  from assms obtain k l :: int where "x = of_int k * pow2 (- n)" "y = of_int l * pow2 (- n)"
    by (auto simp: dyadic_def)
  then have "x + y = of_int (k + l) * pow2 (- n)" by (simp add: algebra_simps)
  then show ?thesis unfolding dyadic_def by blast
qed

lemma dyadic_mult:
  assumes "dyadic x n" "dyadic y m"
  shows "dyadic (x * y) (n + m)"
proof -
  from assms obtain k l :: int where "x = of_int k * pow2 (- n)" "y = of_int l * pow2 (- m)"
    by (auto simp: dyadic_def)
  moreover have "pow2 (- (n + m)) = pow2 (- n) * pow2 (- m)" by (simp flip: pow2_add)
  ultimately have "x * y = of_int (k * l) * pow2 (- (n + m))" by simp
  then show ?thesis unfolding dyadic_def by blast
qed

lemma dyadic_neg: "dyadic x n \<Longrightarrow> dyadic (- x) n"
proof -
  assume "dyadic x n"
  then obtain k :: int where "x = of_int k * pow2 (- n)" by (auto simp: dyadic_def)
  then have "- x = of_int (- k) * pow2 (- n)" by simp
  then show ?thesis unfolding dyadic_def by blast
qed

lemma dyadic_shift:
  assumes "dyadic x n"
  shows "dyadic (x * pow2 s) (n + \<bar>s\<bar>)"
proof -
  from assms obtain k :: int where k: "x = of_int k * pow2 (- n)" by (auto simp: dyadic_def)
  have "pow2 (- n) * pow2 s = pow2 (s + \<bar>s\<bar>) * pow2 (- (n + \<bar>s\<bar>))" by (simp flip: pow2_add)
  also have "pow2 (s + \<bar>s\<bar>) = of_int (2 ^ nat (s + \<bar>s\<bar>))" by (simp add: pow2_of_int)
  finally have "x * pow2 s = of_int (k * 2 ^ nat (s + \<bar>s\<bar>)) * pow2 (- (n + \<bar>s\<bar>))"
    using k by simp
  then show ?thesis unfolding dyadic_def by blast
qed

lemma dyadic_of_int: "dyadic (of_int i) (int n)"
proof -
  have "pow2 (int n) * pow2 (- int n) = 1" by (simp flip: pow2_add)
  then have "(of_int i :: real) = of_int (i * 2 ^ n) * pow2 (- int n)"
    by (simp add: pow2_nat)
  then show ?thesis unfolding dyadic_def by blast
qed

lemma dyadic_lower:
  assumes "dyadic x n" "x \<noteq> 0"
  shows "pow2 (- n) \<le> \<bar>x\<bar>"
proof -
  from assms(1) obtain k :: int where k: "x = of_int k * pow2 (- n)" by (auto simp: dyadic_def)
  then have "k \<noteq> 0" using assms(2) by auto
  then have "1 \<le> \<bar>k\<bar>" by simp
  then have "(1 :: real) \<le> \<bar>of_int k\<bar>" by (metis of_int_1_le_iff of_int_abs)
  then have "1 * pow2 (- n) \<le> \<bar>of_int k\<bar> * pow2 (- n)" by (intro mult_right_mono) simp_all
  then show ?thesis using k by (simp add: abs_mult)
qed

lemma mag_bound:
  "algebraic c \<Longrightarrow> 0 \<le> mag c \<and> \<bar>val c\<bar> < pow2 (mag c) \<and> dyadic (val c) (mag c)"
proof (induction c)
  case (constructiveInteger t i)
  have "\<bar>of_int i :: real\<bar> < 2 ^ BitLen i"
    using BitLen_upper [of i] by (metis of_int_abs of_int_less_numeral_power_cancel_iff)
  then show ?case by (simp add: pow2_nat dyadic_of_int)
next
  case (constructiveAddition t a b)
  then have a: "0 \<le> mag a" "\<bar>val a\<bar> < pow2 (mag a)" "dyadic (val a) (mag a)"
    and b: "0 \<le> mag b" "\<bar>val b\<bar> < pow2 (mag b)" "dyadic (val b) (mag b)"
    by simp_all
  define M where "M = max (mag a) (mag b)"
  have "pow2 (mag a) \<le> pow2 M" "pow2 (mag b) \<le> pow2 M"
    by (rule pow2_mono, simp add: M_def)+
  then have "\<bar>val a + val b\<bar> < 2 * pow2 M" using a(2) b(2) by linarith
  then have "\<bar>val a + val b\<bar> < pow2 (M + 1)" by (simp add: pow2_double)
  moreover have "dyadic (val a + val b) (M + 1)"
    by (intro dyadic_add dyadic_mono [OF a(3)] dyadic_mono [OF b(3)]) (simp_all add: M_def)
  ultimately show ?case using a(1) by (simp add: M_def)
next
  case (constructiveMultiplication t a b)
  then have a: "0 \<le> mag a" "\<bar>val a\<bar> < pow2 (mag a)" "dyadic (val a) (mag a)"
    and b: "0 \<le> mag b" "\<bar>val b\<bar> < pow2 (mag b)" "dyadic (val b) (mag b)"
    by simp_all
  have "\<bar>val a\<bar> * \<bar>val b\<bar> < pow2 (mag a) * pow2 (mag b)"
    using a(2) b(2) by (intro mult_strict_mono') simp_all
  then have "\<bar>val a * val b\<bar> < pow2 (mag a + mag b)" by (simp add: abs_mult pow2_add)
  then show ?case using a(1) b(1) dyadic_mult [OF a(3) b(3)] by simp
next
  case (constructiveShift t r n)
  then have r: "0 \<le> mag r" "\<bar>val r\<bar> < pow2 (mag r)" "dyadic (val r) (mag r)" by simp_all
  have "\<bar>val r\<bar> * pow2 (sint n) < pow2 (mag r) * pow2 (sint n)"
    using r(2) by (intro mult_strict_right_mono) simp_all
  also have "\<dots> = pow2 (mag r + sint n)" by (simp add: pow2_add)
  also have "\<dots> \<le> pow2 (mag r + \<bar>sint n\<bar>)" by (intro pow2_mono) simp
  finally have "\<bar>val r * pow2 (sint n)\<bar> < pow2 (mag r + \<bar>sint n\<bar>)" by (simp add: abs_mult)
  then show ?case using r(1) dyadic_shift [OF r(3), of "sint n"] by simp
next
  case (constructiveNegation t r)
  then show ?case by (simp add: dyadic_neg)
qed simp_all

lemma need_nonneg: "algebraic c \<Longrightarrow> 0 \<le> need c"
proof (induction c)
  case (constructiveMultiplication t a b)
  then have "0 \<le> need a" "0 \<le> mag a" using mag_bound [of a] by simp_all
  then show ?case by simp
qed simp_all

lemma algebraic_tracker: "algebraic c \<Longrightarrow> \<exists>t. tracker c = Some t"
  by (induction c) simp_all

lemma BitLen_lower:
  assumes "m \<noteq> 0"
  shows "2 ^ (BitLen m - 1) \<le> \<bar>m\<bar>"
proof (rule ccontr)
  assume "\<not> 2 ^ (BitLen m - 1) \<le> \<bar>m\<bar>"
  then have "\<bar>m\<bar> < 2 ^ (BitLen m - 1)" by simp
  then have "BitLen m \<le> BitLen m - 1" by (rule BitLen_le)
  then show False using BitLen_pos [OF assms] by simp
qed

lemma msd_lower:
  assumes "approximates x q m" "2 \<le> \<bar>m\<bar>"
  shows "pow2 (q + int (BitLen m) - 2) < \<bar>x\<bar>"
proof -
  define B where "B = BitLen m - 2"
  have B2: "2 \<le> BitLen m" by (rule BitLen_ge_2 [OF assms(2)])
  then have B: "BitLen m - 1 = Suc B" "int (BitLen m) - 2 = int B" by (simp_all add: B_def)
  have "m \<noteq> 0" using assms(2) by auto
  from BitLen_lower [OF this] have "2 * 2 ^ B \<le> \<bar>m\<bar>" unfolding B(1) by simp
  moreover have "(1 :: int) \<le> 2 ^ B" by simp
  ultimately have "2 ^ B \<le> \<bar>m\<bar> - 1" by linarith
  then have "(of_int (2 ^ B) :: real) \<le> of_int (\<bar>m\<bar> - 1)" by (simp only: of_int_le_iff)
  then have "(2 ^ B :: real) \<le> \<bar>of_int m\<bar> - 1" by simp
  then have "2 ^ B * pow2 q \<le> (\<bar>of_int m\<bar> - 1) * pow2 q" by (intro mult_right_mono) simp_all
  also have "\<dots> = \<bar>of_int m * pow2 q\<bar> - pow2 q" by (simp add: abs_mult algebra_simps)
  also have "\<dots> < \<bar>x\<bar>" using assms(1) unfolding approximates_def by linarith
  finally have "pow2 (int B) * pow2 q < \<bar>x\<bar>" by (simp add: pow2_nat)
  then have "pow2 (int B + q) < \<bar>x\<bar>" by (simp only: pow2_add)
  moreover have "q + int (BitLen m) - 2 = int B + q" using B(2) by linarith
  ultimately show ?thesis by (simp only:)
qed

lemma approximates_nonzero:
  assumes "approximates x q m" "m \<noteq> 0"
  shows "x \<noteq> 0"
proof
  assume "x = 0"
  then have "\<bar>of_int m\<bar> * pow2 q < 1 * pow2 q"
    using assms(1) by (simp add: approximates_def abs_mult)
  then have "\<bar>of_int m :: real\<bar> < 1" using mult_less_cancel_right_pos [of "pow2 q"] by simp
  then have "\<bar>m\<bar> < 1" by (metis of_int_abs of_int_less_1_iff)
  then show False using assms(2) by simp
qed

lemma msd_range:
  assumes a: "approximates x q m" and m: "m \<noteq> 0" and b: "\<bar>x\<bar> < pow2 M" and d: "dyadic x M"
  shows "- M \<le> q + int (BitLen m) - 1"
    and "2 \<le> \<bar>m\<bar> \<Longrightarrow> q + int (BitLen m) - 1 \<le> M"
    and "\<not> 2 \<le> \<bar>m\<bar> \<Longrightarrow> q + int (BitLen m) - 1 = q"
proof -
  have "x \<noteq> 0" by (rule approximates_nonzero [OF a m])
  then have "pow2 (- M) \<le> \<bar>x\<bar>" by (rule dyadic_lower [OF d])
  also have "\<bar>x\<bar> < pow2 (q + int (BitLen m))" by (rule msd_upper [OF a])
  finally have "- M < q + int (BitLen m)" by (simp only: pow2_less_iff)
  then show "- M \<le> q + int (BitLen m) - 1" by simp
next
  assume "2 \<le> \<bar>m\<bar>"
  from msd_lower [OF a this] b have "pow2 (q + int (BitLen m) - 2) < pow2 M" by linarith
  then have "q + int (BitLen m) - 2 < M" by (simp only: pow2_less_iff)
  then show "q + int (BitLen m) - 1 \<le> M" by simp
next
  assume "\<not> 2 \<le> \<bar>m\<bar>"
  then have "\<bar>m\<bar> < 2 ^ 1" by simp
  then have "BitLen m \<le> 1" by (rule BitLen_le)
  then have "BitLen m = 1" using BitLen_pos [OF m] by simp
  then show "q + int (BitLen m) - 1 = q" by simp
qed

section \<open>The error bound at every node\<close>

lemma operand_bounded:
  assumes "algebraic c" "mag c < 2 ^ 60"
  shows "\<bar>val c\<bar> < pow2 sizeLimit"
proof -
  have "mag c \<le> sizeLimit" using assms(2) by (simp add: sizeLimit_def)
  then have "pow2 (mag c) \<le> pow2 sizeLimit" by (rule pow2_mono)
  then show ?thesis using mag_bound [OF assms(1)] by linarith
qed

lemma contract_nodes:
  "algebraic c \<Longrightarrow> consistent V c \<Longrightarrow> need c < 2 ^ 60 \<Longrightarrow> methodOk K V c \<and> rootOk V c"
proof (induction c)
  case (constructiveInteger t i)
  then show ?case by (simp add: method_integer rootOk_def)
next
  case (constructiveAddition t a b)
  then have "need a < 2 ^ 60" "need b < 2 ^ 60" by simp_all
  with constructiveAddition have "driverOk K V a" "driverOk K V b"
    by (simp_all add: driver_from_method)
  then have "methodOk K V (constructiveAddition t a b)" by (rule method_addition)
  then show ?case using constructiveAddition.prems by (simp add: rootOk_def)
next
  case (constructiveMultiplication t a b)
  then have A: "algebraic a" "algebraic b" by simp_all
  note na = need_nonneg [OF A(1)] and nb = need_nonneg [OF A(2)]
  note ga = mag_bound [OF A(1)] and gb = mag_bound [OF A(2)]
  have N: "max (need a) (need b) + max (mag a) (mag b) + 3 < 2 ^ 60"
    using constructiveMultiplication.prems(3) by simp
  have n: "need a < 2 ^ 60" "need b < 2 ^ 60" using N ga gb by linarith+
  have g: "mag a < 2 ^ 60" "mag b < 2 ^ 60" using N na nb by linarith+
  from constructiveMultiplication n
  have "driverOk K V a" "driverOk K V b" "rootOk V a" "rootOk V b"
    by (simp_all add: driver_from_method)
  then have "methodOk K V (constructiveMultiplication t a b)"
    using operand_bounded [OF A(1) g(1)] operand_bounded [OF A(2) g(2)]
    by (rule method_multiplication)
  then show ?case using constructiveMultiplication.prems by (simp add: rootOk_def)
next
  case (constructiveShift t r n)
  then have "need r < 2 ^ 60" by simp
  with constructiveShift have "driverOk K V r" by (simp add: driver_from_method)
  then have "methodOk K V (constructiveShift t r n)" by (rule method_shift)
  then show ?case using constructiveShift.prems by (simp add: rootOk_def)
next
  case (constructiveNegation t r)
  then have "driverOk K V r" by (simp add: driver_from_method)
  then have "methodOk K V (constructiveNegation t r)" by (rule method_negation)
  then show ?case using constructiveNegation.prems by (simp add: rootOk_def)
next
  case (named r nm)
  then show ?case by (simp add: method_named rootOk_named)
qed simp_all

lemma contract_driver:
  assumes "algebraic c" "consistent V c" "need c < 2 ^ 60"
  shows "driverOk K V c"
  using contract_nodes [OF assms] by (simp add: driver_from_method)

lemma trackersOk_emptyHeap: "trackersOk V emptyHeap"
  by (simp add: trackersOk_def emptyHeap_def zeroTracker_def)

section \<open>Approximations that return\<close>

lemma range_valid: "0 \<le> n \<Longrightarrow> \<bar>sint p\<bar> + n < 2 ^ 60 \<Longrightarrow> IsPrecisionValid p"
  unfolding IsPrecisionValid_range by linarith

lemma Approximate_hit:
  assumes "IsPrecisionValid p" "tracker c = Some t" "IsValid (trackers h t)"
    "sint (MinPrecision (trackers h t)) \<le> sint p" "MaxApproximation (trackers h t) = Some m"
  shows "Approximate K c p h = Inr (Some (scale m (MinPrecision (trackers h t) - p)), h)"
  using assms by (simp add: Approximate.simps Get_def word_sle_eq)

lemma Approximate_miss:
  assumes "IsPrecisionValid p" "tracker c = Some t"
    "\<not> (IsValid (trackers h t) \<and> sint (MinPrecision (trackers h t)) \<le> sint p)"
    "approximate K c p h = Inr (r, h1)"
  shows "Approximate K c p h =
     Inr (r, h1\<lparr>trackers := (trackers h1)
               (t := \<lparr>IsValid = True, MaxApproximation = r, MinPrecision = p\<rparr>)\<rparr>)"
  using assms by (auto simp: Approximate.simps Get_def Set_def word_sle_eq tracker_overwrite)

lemma trackersHold_update:
  "trackersHold h \<Longrightarrow>
   trackersHold (h\<lparr>trackers := (trackers h)
     (t := \<lparr>IsValid = True, MaxApproximation = Some a, MinPrecision = p\<rparr>)\<rparr>)"
  by (simp add: trackersHold_def)

lemma total_driver_from_method:
  assumes M: "methodTotal K V c" and t: "tracker c = Some t" and n: "0 \<le> need c"
  shows "driverTotal K V c"
  unfolding driverTotal_def
proof (intro allI impI)
  fix p :: goint and h
  assume "trackersOk V h \<and> trackersHold h \<and> \<bar>sint p\<bar> + need c < 2 ^ 60"
  then have T: "trackersOk V h" and H: "trackersHold h" and R: "\<bar>sint p\<bar> + need c < 2 ^ 60"
    by simp_all
  have P: "IsPrecisionValid p" by (rule range_valid [OF n R])
  show "\<exists>a h'. Approximate K c p h = Inr (Some a, h') \<and> trackersHold h'"
  proof (cases "IsValid (trackers h t) \<and> sint (MinPrecision (trackers h t)) \<le> sint p")
    case True
    then obtain m where m: "MaxApproximation (trackers h t) = Some m"
      using H by (auto simp: trackersHold_def)
    from Approximate_hit [OF P t _ _ m] True H show ?thesis by blast
  next
    case False
    from M T H R obtain a h1 where a: "approximate K c p h = Inr (Some a, h1)"
      and H1: "trackersHold h1"
      unfolding methodTotal_def by blast
    from Approximate_miss [OF P t False a] trackersHold_update [OF H1] show ?thesis by blast
  qed
qed

lemma total_integer: "methodTotal K V (constructiveInteger t i)"
  by (simp add: methodTotal_def)

lemma total_negation:
  assumes "driverTotal K V r"
  shows "methodTotal K V (constructiveNegation t r)"
  unfolding methodTotal_def
proof (intro allI impI)
  fix p :: goint and h
  assume "trackersOk V h \<and> trackersHold h \<and> \<bar>sint p\<bar> + need (constructiveNegation t r) < 2 ^ 60"
  with assms obtain a h' where "Approximate K r p h = Inr (Some a, h')" "trackersHold h'"
    unfolding driverTotal_def by force
  then show "\<exists>a h'. approximate K (constructiveNegation t r) p h = Inr (Some a, h') \<and>
      trackersHold h'"
    by simp
qed

lemma total_shift:
  assumes D: "driverTotal K V r" and n: "0 \<le> need r"
  shows "methodTotal K V (constructiveShift t r s)"
  unfolding methodTotal_def
proof (intro allI impI)
  fix p :: goint and h
  assume "trackersOk V h \<and> trackersHold h \<and> \<bar>sint p\<bar> + need (constructiveShift t r s) < 2 ^ 60"
  then have T: "trackersOk V h" and H: "trackersHold h"
    and R: "\<bar>sint p\<bar> + (need r + \<bar>sint s\<bar>) < 2 ^ 60"
    by simp_all
  have "sint (p - s) = sint p - sint s"
    using R n by (intro sint_sub_no_wrap; simp; linarith)
  then have "\<bar>sint (p - s)\<bar> + need r < 2 ^ 60" using R by linarith
  with D T H obtain a h' where "Approximate K r (p - s) h = Inr (Some a, h')" "trackersHold h'"
    unfolding driverTotal_def by blast
  then show "\<exists>a h'. approximate K (constructiveShift t r s) p h = Inr (Some a, h') \<and>
      trackersHold h'"
    by simp
qed

lemma total_addition:
  assumes Ta: "driverTotal K V a" and Tb: "driverTotal K V b" and Da: "driverOk K V a"
    and n: "0 \<le> need a" "0 \<le> need b"
  shows "methodTotal K V (constructiveAddition t a b)"
  unfolding methodTotal_def
proof (intro allI impI)
  fix p :: goint and h
  assume "trackersOk V h \<and> trackersHold h \<and>
    \<bar>sint p\<bar> + need (constructiveAddition t a b) < 2 ^ 60"
  then have T: "trackersOk V h" and H: "trackersHold h"
    and R: "\<bar>sint p\<bar> + (max (need a) (need b) + 2) < 2 ^ 60"
    by simp_all
  have P: "IsPrecisionValid p" using R n by (intro range_valid [of "max (need a) (need b) + 2"]) simp_all
  have s: "sint (p - 2) = sint p - 2" by (rule valid_sub_2 [OF P])
  have Ra: "\<bar>sint (p - 2)\<bar> + need a < 2 ^ 60" and Rb: "\<bar>sint (p - 2)\<bar> + need b < 2 ^ 60"
    using R s by linarith+
  from Ta T H Ra obtain x h1 where a: "Approximate K a (p - 2) h = Inr (Some x, h1)"
    and H1: "trackersHold h1"
    unfolding driverTotal_def by blast
  from Da T a have T1: "trackersOk V h1" unfolding driverOk_def by blast
  from Tb T1 H1 Rb obtain y h2 where b: "Approximate K b (p - 2) h1 = Inr (Some y, h2)"
    and H2: "trackersHold h2"
    unfolding driverTotal_def by blast
  show "\<exists>a' h'. approximate K (constructiveAddition t a b) p h = Inr (Some a', h') \<and>
      trackersHold h'"
    using a b H2 by simp
qed

lemma total_named: "methodTotal K V (named r nm) = methodTotal K V r"
  by (simp add: methodTotal_def)

section \<open>The most significant digit is found\<close>

lemma msd_total:
  assumes Tc: "driverTotal K V c" and Dc: "driverOk K V c" and Rc: "rootOk V c"
    and B: "\<bar>val c\<bar> < pow2 sizeLimit"
    and T: "trackersOk V h" and H: "trackersHold h"
    and R: "\<bar>sint (n - 1)\<bar> + need c < 2 ^ 60" and nn: "0 \<le> need c"
  shows "\<exists>m h'. msd K c n h = Inr (m, h') \<and> trackersHold h'"
proof -
  have P: "IsPrecisionValid (n - 1)" by (rule range_valid [OF nn R])
  from Tc T H R obtain x h1 where A: "Approximate K c (n - 1) h = Inr (Some x, h1)"
    and H1: "trackersHold h1"
    unfolding driverTotal_def by blast
  from Dc T A have T1: "trackersOk V h1" unfolding driverOk_def by blast
  from Approximate_tracker [OF P A] obtain t mm where t: "tracker c = Some t"
    and v1: "IsValid (trackers h1 t)" and m1: "MaxApproximation (trackers h1 t) = Some mm"
    by auto
  have known: "\<exists>m. knownMSD c g = Inr m"
    if "trackersOk V g" "IsValid (trackers g t)" "MaxApproximation (trackers g t) = Some k"
    for g k
  proof -
    have "IsPrecisionValid (MinPrecision (trackers g t))"
      using that by (auto simp: trackersOk_def)
    moreover have "\<bar>V t\<bar> < pow2 sizeLimit" using B Rc t by (simp add: rootOk_def)
    then have "BitLen k < 2 ^ 62" by (rule tracker_size [OF _ that])
    ultimately show ?thesis using knownMSD_value [OF t that(3)] by blast
  qed
  define g where "g = (if \<not> IsValid (trackers h t) then Inr True
                 else (case MaxApproximation (trackers h t) of
                         None \<Rightarrow> Inl NilDereference
                       | Some m \<Rightarrow> Inr (m \<le> 1 \<and> - 1 \<le> m)))"
  have E: "msd K c n h =
      (case g of
         Inl e \<Rightarrow> Inl e
       | Inr False \<Rightarrow>
           (case knownMSD c h of Inl e \<Rightarrow> Inl e | Inr m \<Rightarrow> Inr (m, h))
       | Inr True \<Rightarrow>
           (case Approximate K c (n - 1) h of
              Inl e \<Rightarrow> Inl e
            | Inr (x, h1) \<Rightarrow>
                (case MaxApproximation (trackers h1 t) of
                   None \<Rightarrow> Inl NilDereference
                 | Some m \<Rightarrow>
                     if bigAbs m \<le> 1 then Inr (MinInt, h1)
                     else (case knownMSD c h1 of
                             Inl e \<Rightarrow> Inl e
                           | Inr m' \<Rightarrow> Inr (m', h1)))))"
    unfolding g_def by (subst msd.simps) (simp only: t option.case)
  have probe: "\<exists>m. (case Approximate K c (n - 1) h of
              Inl e \<Rightarrow> Inl e
            | Inr (x, h1) \<Rightarrow>
                (case MaxApproximation (trackers h1 t) of
                   None \<Rightarrow> Inl NilDereference
                 | Some m \<Rightarrow>
                     if bigAbs m \<le> 1 then Inr (MinInt, h1)
                     else (case knownMSD c h1 of
                             Inl e \<Rightarrow> Inl e
                           | Inr m' \<Rightarrow> Inr (m', h1)))) = Inr (m, h1)"
  proof (cases "bigAbs mm \<le> 1")
    case True
    then show ?thesis using A m1 by simp
  next
    case False
    from known [OF T1 v1 m1] obtain m where "knownMSD c h1 = Inr m" by blast
    then show ?thesis using A m1 False by simp
  qed
  show ?thesis
  proof (cases "IsValid (trackers h t)")
    case False
    then have "g = Inr True" by (simp add: g_def)
    then show ?thesis using E probe H1 by auto
  next
    case True
    then obtain k where k: "MaxApproximation (trackers h t) = Some k"
      using H by (auto simp: trackersHold_def)
    show ?thesis
    proof (cases "k \<le> 1 \<and> - 1 \<le> k")
      case True
      then have "g = Inr True" using \<open>IsValid (trackers h t)\<close> k by (simp add: g_def)
      then show ?thesis using E probe H1 by auto
    next
      case False
      then have "g = Inr False" using \<open>IsValid (trackers h t)\<close> k by (simp add: g_def)
      moreover from known [OF T True k] obtain m where "knownMSD c h = Inr m" by blast
      ultimately show ?thesis using E H by auto
    qed
  qed
qed

section \<open>Multiplication returns\<close>

lemma scale_of_zero [simp]: "scale 0 d = 0"
  by (simp add: scale_def bigLsh_def bigRsh_def bigAdd_def signedShift_def)

lemma mulTail_total:
  assumes Ta: "driverTotal K V a" and Tb: "driverTotal K V b"
    and Da: "driverOk K V a" and Db: "driverOk K V b"
    and Rb: "rootOk V b"
    and Aa: "algebraic a" and Ab: "algebraic b"
    and T: "trackersOk V h2" and H: "trackersHold h2"
    and R: "\<bar>sint p\<bar> + (max (need a) (need b) + max (mag a) (mag b) + 3) < 2 ^ 60"
    and M: "\<bar>sint ma\<bar> \<le> max (mag a) (mag b)"
  shows "\<exists>x h'. mulTail K a b p ma h2 = Inr (Some x, h') \<and> trackersHold h'"
proof -
  note na = need_nonneg [OF Aa] and nb = need_nonneg [OF Ab]
  note ga = mag_bound [OF Aa] and gb = mag_bound [OF Ab]
  define G where "G = max (mag a) (mag b)"
  have G: "0 \<le> G" "mag a \<le> G" "mag b \<le> G" using ga gb by (auto simp: G_def max_def)
  have R': "\<bar>sint p\<bar> + need a + G + 3 < 2 ^ 60" "\<bar>sint p\<bar> + need b + G + 3 < 2 ^ 60"
    using R unfolding G_def [symmetric] by linarith+
  have M': "\<bar>sint ma\<bar> \<le> G" using M by (simp add: G_def)
  have P: "IsPrecisionValid p"
    using R'(1) na G(1) by (intro range_valid [of "need a + G + 3"]) linarith+
  define p2 where "p2 = p - ma - 3"
  have G60: "G < 2 ^ 60" using R'(1) na by linarith
  have P2: "sint p2 = sint p - sint ma - 3"
    unfolding p2_def using M' G60 by (intro operand_precision [OF P]; simp; linarith)
  have "\<bar>sint p2\<bar> + need b < 2 ^ 60" using P2 M' R'(2) by linarith
  with Tb T H obtain ib h3 where B1: "Approximate K b p2 h2 = Inr (Some ib, h3)"
    and H3: "trackersHold h3"
    unfolding driverTotal_def by blast
  from Db T B1 have T3: "trackersOk V h3" and v2: "IsPrecisionValid p2"
    unfolding driverOk_def by blast+
  show ?thesis
  proof (cases "ib = 0")
    case True
    then have "mulTail K a b p ma h2 = Inr (Some 0, h3)"
      using B1 [unfolded p2_def] unfolding mulTail_def Let_def by simp
    then show ?thesis using H3 by blast
  next
    case False
    from Approximate_tracker [OF v2 B1] obtain t3 m3 where t3: "tracker b = Some t3"
      "IsValid (trackers h3 t3)" "MaxApproximation (trackers h3 t3) = Some m3"
      and le3: "sint (MinPrecision (trackers h3 t3)) \<le> sint p2"
      and ib: "ib = scale m3 (MinPrecision (trackers h3 t3) - p2)"
      by auto
    have m3: "m3 \<noteq> 0" using ib False by auto
    have vq3: "IsPrecisionValid (MinPrecision (trackers h3 t3))"
      and a3: "approximates (V t3) (sint (MinPrecision (trackers h3 t3))) m3"
      using T3 t3(2,3) by (auto simp: trackersOk_def)
    have vb: "V t3 = val b" using Rb t3(1) by (simp add: rootOk_def)
    have "mag b < 2 ^ 60" using G(3) G60 by linarith
    then have "\<bar>V t3\<bar> < pow2 sizeLimit" using operand_bounded [OF Ab] vb by simp
    then have s3: "BitLen m3 < 2 ^ 62" by (rule tracker_size [OF _ T3 t3(2,3)])
    from knownMSD_value [OF t3(1,3) vq3 s3] obtain mb
      where mb: "knownMSD b h3 = Inr mb"
        and MB: "sint mb = sint (MinPrecision (trackers h3 t3)) + int (BitLen m3) - 1"
      by blast
    note rg = msd_range [OF a3 [unfolded vb] m3 gb [THEN conjunct2, THEN conjunct1]
        gb [THEN conjunct2, THEN conjunct2]]
    have lo: "- G \<le> sint mb" using rg(1) MB G(3) by linarith
    have hi: "sint mb \<le> G \<or> sint mb \<le> sint p2"
    proof (cases "2 \<le> \<bar>m3\<bar>")
      case True
      then show ?thesis using rg(2) MB G(3) by linarith
    next
      case False
      then show ?thesis using rg(3) MB le3 by linarith
    qed
    have v2r: "sint p2 < 2 ^ 60" using v2 by (simp add: IsPrecisionValid_range)
    define p1 where "p1 = p - mb - 3"
    have P1: "sint p1 = sint p - sint mb - 3"
      unfolding p1_def using lo hi G60 v2r by (intro operand_precision [OF P]; simp; linarith)
    have "\<bar>sint p1\<bar> + need a < 2 ^ 60" using P1 P2 lo hi M' R'(1) na by linarith
    with Ta T3 H3 obtain ia h4 where A4: "Approximate K a p1 h3 = Inr (Some ia, h4)"
      and H4: "trackersHold h4"
      unfolding driverTotal_def by blast
    have "mulTail K a b p ma h2 = Inr (Some (scale (bigMul ia ib) (p1 + p2 - p)), h4)"
      using B1 [unfolded p2_def] mb A4 [unfolded p1_def] False
      unfolding mulTail_def Let_def p1_def p2_def by (simp add: sgn_if)
    then show ?thesis using H4 by blast
  qed
qed

lemma total_multiplication:
  assumes Ta: "driverTotal K V a" and Tb: "driverTotal K V b"
    and Da: "driverOk K V a" and Db: "driverOk K V b"
    and Ra: "rootOk V a" and Rb: "rootOk V b"
    and Aa: "algebraic a" and Ab: "algebraic b"
  shows "methodTotal K V (constructiveMultiplication t a b)"
  unfolding methodTotal_def
proof (intro allI impI)
  fix p :: goint and h
  assume "trackersOk V h \<and> trackersHold h \<and>
    \<bar>sint p\<bar> + need (constructiveMultiplication t a b) < 2 ^ 60"
  then have T: "trackersOk V h" and H: "trackersHold h"
    and R: "\<bar>sint p\<bar> + (max (need a) (need b) + max (mag a) (mag b) + 3) < 2 ^ 60"
    by simp_all
  note na = need_nonneg [OF Aa] and nb = need_nonneg [OF Ab]
  note ga = mag_bound [OF Aa] and gb = mag_bound [OF Ab]
  define G where "G = max (mag a) (mag b)"
  have G: "0 \<le> G" "mag a \<le> G" "mag b \<le> G" using ga gb by (auto simp: G_def max_def)
  have R': "\<bar>sint p\<bar> + need a + G + 3 < 2 ^ 60" "\<bar>sint p\<bar> + need b + G + 3 < 2 ^ 60"
    using R unfolding G_def [symmetric] by linarith+
  have P: "IsPrecisionValid p"
    using R'(1) na G(1) by (intro range_valid [of "need a + G + 3"]) linarith+
  define hp where "hp = signed_drop_bit 1 p - 1"
  note hpf = half_precision [OF P, folded hp_def]
  have hp1: "sint (hp - 1) = sint hp - 1" using hpf(1,3) by simp
  have half: "\<bar>sint (hp - 1)\<bar> \<le> \<bar>sint p\<bar> + 2" unfolding hpf(3) by arith
  have "mag a < 2 ^ 60" "mag b < 2 ^ 60" using R'(1) na G by linarith+
  then have Ba: "\<bar>val a\<bar> < pow2 sizeLimit" and Bb: "\<bar>val b\<bar> < pow2 sizeLimit"
    using operand_bounded [OF Aa] operand_bounded [OF Ab] by simp_all
  have Rpa: "\<bar>sint (hp - 1)\<bar> + need a < 2 ^ 60" and Rpb: "\<bar>sint (hp - 1)\<bar> + need b < 2 ^ 60"
    using half R' G(1) by linarith+
  have digit: "\<bar>sint m\<bar> \<le> max (mag a) (mag b)"
    if "trackersOk V g" "rootOk V c" "algebraic c" "mag c \<le> G" "tracker c = Some u"
      "IsValid (trackers g u)" "MaxApproximation (trackers g u) = Some mm" "2 \<le> \<bar>mm\<bar>"
      "sint m = sint (MinPrecision (trackers g u)) + int (BitLen mm) - 1"
    for g c u mm m
  proof -
    have "approximates (V u) (sint (MinPrecision (trackers g u))) mm"
      using that(1,6,7) by (auto simp: trackersOk_def)
    moreover have "V u = val c" using that(2,5) by (simp add: rootOk_def)
    ultimately have a: "approximates (val c) (sint (MinPrecision (trackers g u))) mm" by simp
    have "mm \<noteq> 0" using that(8) by auto
    note gc = mag_bound [OF that(3)]
    note rg = msd_range [OF a \<open>mm \<noteq> 0\<close> gc [THEN conjunct2, THEN conjunct1]
        gc [THEN conjunct2, THEN conjunct2]]
    from rg(1) rg(2) [OF that(8)] that(4,9) show ?thesis unfolding G_def [symmetric]
      by linarith
  qed
  from msd_total [OF Ta Da Ra Ba T H Rpa na] obtain ma h1 where Ma: "msd K a hp h = Inr (ma, h1)"
    and H1: "trackersHold h1"
    by blast
  note pa = msd_post [OF Da Ra Ba T hpf(2) hp1 Ma]
  have T1: "trackersOk V h1" using pa by simp
  show "\<exists>x h'. approximate K (constructiveMultiplication t a b) p h = Inr (Some x, h') \<and>
      trackersHold h'"
  proof (cases "ma = MinInt")
    case False
    from pa False obtain u mm where u: "tracker a = Some u" "IsValid (trackers h1 u)"
      "MaxApproximation (trackers h1 u) = Some mm" "2 \<le> \<bar>mm\<bar>"
      "sint ma = sint (MinPrecision (trackers h1 u)) + int (BitLen mm) - 1"
      by blast
    note M = digit [OF T1 Ra Aa G(2) u]
    from mulTail_total [OF Ta Tb Da Db Rb Aa Ab T1 H1 R M]
    obtain x h' where "mulTail K a b p ma h1 = Inr (Some x, h')" "trackersHold h'" by blast
    then show ?thesis
      unfolding multiplication_unfold hp_def [symmetric] using Ma False by simp
  next
    case True
    from msd_total [OF Tb Db Rb Bb T1 H1 Rpb nb] obtain mb h2
      where Mb: "msd K b hp h1 = Inr (mb, h2)" and H2: "trackersHold h2"
      by blast
    note pb = msd_post [OF Db Rb Bb T1 hpf(2) hp1 Mb]
    have T2: "trackersOk V h2" using pb by simp
    show ?thesis
    proof (cases "mb = MinInt")
      case True
      show ?thesis
        unfolding multiplication_unfold hp_def [symmetric]
        using Ma \<open>ma = MinInt\<close> Mb True H2 by simp
    next
      case False
      from pb False obtain u mm where u: "tracker b = Some u" "IsValid (trackers h2 u)"
        "MaxApproximation (trackers h2 u) = Some mm" "2 \<le> \<bar>mm\<bar>"
        "sint mb = sint (MinPrecision (trackers h2 u)) + int (BitLen mm) - 1"
        by blast
      note M = digit [OF T2 Rb Ab G(3) u]
      from mulTail_total [OF Ta Tb Da Db Rb Aa Ab T2 H2 R M]
      obtain x h' where "mulTail K a b p mb h2 = Inr (Some x, h')" "trackersHold h'" by blast
      then show ?thesis
        unfolding multiplication_unfold hp_def [symmetric]
        using Ma \<open>ma = MinInt\<close> Mb False by simp
    qed
  qed
qed

section \<open>The approximation contract\<close>

lemma contract_total:
  "algebraic c \<Longrightarrow> consistent V c \<Longrightarrow> need c < 2 ^ 60 \<Longrightarrow> methodTotal K V c"
proof (induction c)
  case (constructiveInteger t i)
  show ?case by (rule total_integer)
next
  case (constructiveAddition t a b)
  then have A: "algebraic a" "algebraic b" and C: "consistent V a" "consistent V b"
    and N: "need a < 2 ^ 60" "need b < 2 ^ 60"
    by simp_all
  from constructiveAddition A C N have M: "methodTotal K V a" "methodTotal K V b" by simp_all
  from algebraic_tracker [OF A(1)] algebraic_tracker [OF A(2)]
  obtain ta tb where t: "tracker a = Some ta" "tracker b = Some tb" by blast
  show ?case
    by (rule total_addition
        [OF total_driver_from_method [OF M(1) t(1) need_nonneg [OF A(1)]]
          total_driver_from_method [OF M(2) t(2) need_nonneg [OF A(2)]]
          contract_driver [OF A(1) C(1) N(1)]
          need_nonneg [OF A(1)] need_nonneg [OF A(2)]])
next
  case (constructiveMultiplication t a b)
  then have A: "algebraic a" "algebraic b" and C: "consistent V a" "consistent V b" by simp_all
  note na = need_nonneg [OF A(1)] and nb = need_nonneg [OF A(2)]
  note ga = mag_bound [OF A(1)] and gb = mag_bound [OF A(2)]
  have "max (need a) (need b) + max (mag a) (mag b) + 3 < 2 ^ 60"
    using constructiveMultiplication.prems(3) by simp
  then have N: "need a < 2 ^ 60" "need b < 2 ^ 60" using ga gb by linarith+
  from constructiveMultiplication A C N have M: "methodTotal K V a" "methodTotal K V b"
    by simp_all
  from algebraic_tracker [OF A(1)] algebraic_tracker [OF A(2)]
  obtain ta tb where t: "tracker a = Some ta" "tracker b = Some tb" by blast
  have R: "rootOk V a" "rootOk V b"
    using contract_nodes [OF A(1) C(1) N(1)] contract_nodes [OF A(2) C(2) N(2)] by simp_all
  show ?case
    by (rule total_multiplication
        [OF total_driver_from_method [OF M(1) t(1) need_nonneg [OF A(1)]]
          total_driver_from_method [OF M(2) t(2) need_nonneg [OF A(2)]]
          contract_driver [OF A(1) C(1) N(1)] contract_driver [OF A(2) C(2) N(2)]
          R A])
next
  case (constructiveShift t r n)
  then have A: "algebraic r" and C: "consistent V r" and N: "need r < 2 ^ 60" by simp_all
  from constructiveShift A C N have M: "methodTotal K V r" by simp
  from algebraic_tracker [OF A] obtain tr where t: "tracker r = Some tr" by blast
  show ?case
    by (rule total_shift [OF total_driver_from_method [OF M t need_nonneg [OF A]]
          need_nonneg [OF A]])
next
  case (constructiveNegation t r)
  then have A: "algebraic r" and C: "consistent V r" and N: "need r < 2 ^ 60" by simp_all
  from constructiveNegation A C N have M: "methodTotal K V r" by simp
  from algebraic_tracker [OF A] obtain tr where t: "tracker r = Some tr" by blast
  show ?case
    by (rule total_negation [OF total_driver_from_method [OF M t need_nonneg [OF A]]])
next
  case (named r nm)
  then show ?case by (simp add: total_named)
qed simp_all

lemma contract_returns:
  assumes "algebraic c" "consistent V c" "need c < 2 ^ 60"
  shows "driverTotal K V c"
proof -
  from algebraic_tracker [OF assms(1)] obtain t where "tracker c = Some t" by blast
  then show ?thesis
    by (rule total_driver_from_method [OF contract_total [OF assms] _ need_nonneg [OF assms(1)]])
qed

lemma trackersHold_emptyHeap: "trackersHold emptyHeap"
  by (simp add: trackersHold_def emptyHeap_def zeroTracker_def)

text \<open>
  Claim C1, as stated, fails in three ways. The bound is relative to the precision and
  not \<open>1\<close>: \<^verbatim>\<open>Approximate(FromInt(3), 3)\<close> is \<open>0\<close>, and \<open>|0\<cdot>2\<^sup>3 - 3| = 3\<close>. The inverse of a
  negative argument has the wrong sign: \<^verbatim>\<open>Approximate(Inverse(FromInt(-2)), -4)\<close> is \<open>8\<close>,
  and \<open>|8\<cdot>2\<^sup>-\<^sup>4 - (-1/2)| = 1\<close>. And an integer need not be returned at a valid precision:
  \<^verbatim>\<open>ShiftLeft(FromInt(1), 2\<^sup>6\<^sup>0 - 1)\<close> at the valid precision \<open>-2\<^sup>6\<^sup>0\<close> asks its operand for
  the precision \<open>-2\<^sup>6\<^sup>1 + 1\<close>, which is not valid, and returns nil.
\<close>

theorem approximation_contract_counterexample:
  "IsPrecisionValid 3 \<and>
   (case FromInt 3 emptyHeap of
      (x, h1) \<Rightarrow> (x, map_sum id fst (Approximate noKernel x 3 h1))) =
     (constructiveInteger 0 3, Inr (Some 0)) \<and>
   \<not> \<bar>of_int 0 * pow2 3 - val (constructiveInteger 0 3)\<bar> < 1 \<and>
   IsPrecisionValid (- 4) \<and>
   (case FromInt (- 2) emptyHeap of
      (x, h1) \<Rightarrow>
        (case Inverse x h1 of
           (r, h2) \<Rightarrow> (r, map_sum id fst (Approximate noKernel r (- 4) h2)))) =
     (constructiveMultiplicativeInverse 1 (constructiveInteger 0 (- 2)), Inr (Some 8)) \<and>
   \<not> \<bar>of_int 8 * pow2 (- 4)
        - val (constructiveMultiplicativeInverse 1 (constructiveInteger 0 (- 2)))\<bar> < 1 \<and>
   IsPrecisionValid (- (2 ^ 60)) \<and>
   (case FromInt 1 emptyHeap of
      (x, h1) \<Rightarrow>
        (case ShiftLeft x (2 ^ 60 - 1) h1 of
           (r, h2) \<Rightarrow> map_sum id fst (Approximate noKernel r (- (2 ^ 60)) h2))) =
     Inr None"
proof -
  have "IsPrecisionValid 3" "IsPrecisionValid (- 4)" "IsPrecisionValid (- (2 ^ 60))"
    by code_simp+
  moreover have "(case FromInt 3 emptyHeap of
      (x, h1) \<Rightarrow> (x, map_sum id fst (Approximate noKernel x 3 h1))) =
     (constructiveInteger 0 3, Inr (Some 0))"
    by code_simp
  moreover have "(case FromInt (- 2) emptyHeap of
      (x, h1) \<Rightarrow>
        (case Inverse x h1 of
           (r, h2) \<Rightarrow> (r, map_sum id fst (Approximate noKernel r (- 4) h2)))) =
     (constructiveMultiplicativeInverse 1 (constructiveInteger 0 (- 2)), Inr (Some 8))"
    by code_simp
  moreover have "(case FromInt 1 emptyHeap of
      (x, h1) \<Rightarrow>
        (case ShiftLeft x (2 ^ 60 - 1) h1 of
           (r, h2) \<Rightarrow> map_sum id fst (Approximate noKernel r (- (2 ^ 60)) h2))) =
     Inr None"
    by code_simp
  moreover have "\<not> \<bar>of_int 0 * pow2 3 - val (constructiveInteger 0 3)\<bar> < 1"
    by simp
  moreover have "\<not> \<bar>of_int 8 * pow2 (- 4)
        - val (constructiveMultiplicativeInverse 1 (constructiveInteger 0 (- 2)))\<bar> < 1"
    by (simp add: pow2_def power_int_minus)
  ultimately show ?thesis by blast
qed

text \<open>
  Claim C1, amended. For every Real \<open>c\<close> constructed from integer leaves with Add,
  Subtract, Negate, ShiftLeft, ShiftRight and Multiply (Inverse is left out), and every
  precision \<open>p\<close> with \<open>|p| + need(c) < 2\<^sup>6\<^sup>0\<close> (a valid precision, far enough from the ends
  of the valid range that every operand precision requested below \<open>c\<close> is valid too):
  on a heap whose valid trackers hold integers that approximate their nodes (a fresh
  heap, or one left by such calls), \<^verbatim>\<open>Approximate(c, p)\<close> returns an integer \<open>a\<close> with
  \<open>|a\<cdot>2\<^sup>p - x| < 2\<^sup>p\<close>, where \<open>x\<close> is the exact value of the expression, hence
  \<open>|a\<cdot>2\<^sup>p - x| < 1\<close> when \<open>p \<le> 0\<close>; and the valid trackers again hold integers that
  approximate their nodes.
\<close>

theorem approximation_contract:
  assumes "algebraic c" and "consistent V c"
    and "trackersOk V h" and "trackersHold h" and "\<bar>sint p\<bar> + need c < 2 ^ 60"
  shows "\<exists>a h'. Approximate K c p h = Inr (Some a, h') \<and>
    IsPrecisionValid p \<and>
    \<bar>of_int a * pow2 (sint p) - val c\<bar> < pow2 (sint p) \<and>
    (sint p \<le> 0 \<longrightarrow> \<bar>of_int a * pow2 (sint p) - val c\<bar> < 1) \<and>
    trackersOk V h' \<and> trackersHold h'"
proof -
  have N: "need c < 2 ^ 60" using assms(5) by linarith
  have "driverTotal K V c" by (rule contract_returns [OF assms(1,2) N])
  with assms(3-5) obtain a h' where R: "Approximate K c p h = Inr (Some a, h')"
    and H: "trackersHold h'"
    unfolding driverTotal_def by blast
  have "driverOk K V c" by (rule contract_driver [OF assms(1,2) N])
  with assms(3) R have T: "trackersOk V h'" and P: "IsPrecisionValid p"
    and A: "approximates (val c) (sint p) a"
    unfolding driverOk_def by blast+
  from A have B: "\<bar>of_int a * pow2 (sint p) - val c\<bar> < pow2 (sint p)"
    by (simp add: approximates_def)
  have "pow2 (sint p) \<le> 1" if "sint p \<le> 0" using that by (rule pow2_le_one)
  with B have "sint p \<le> 0 \<longrightarrow> \<bar>of_int a * pow2 (sint p) - val c\<bar> < 1" by fastforce
  with R P B T H show ?thesis by blast
qed

text \<open>
  An instance of the amended C1: \<open>(3 + 5) \<cdot> 5\<close> with the leaf \<open>5\<close> shared, at precision
  \<open>-4\<close> on the empty heap; \<open>need\<close> is \<open>9\<close> and the approximation is \<open>640 = 40 \<cdot> 2\<^sup>4\<close>.
\<close>

theorem approximation_contract_witness:
  "algebraic (constructiveMultiplication 3
       (constructiveAddition 2 (constructiveInteger 0 3) (constructiveInteger 1 5))
       (constructiveInteger 1 5)) \<and>
   consistent (\<lambda>t. if t = 0 then 3 else if t = 1 then 5 else if t = 2 then 8
                    else if t = 3 then 40 else 0)
     (constructiveMultiplication 3
       (constructiveAddition 2 (constructiveInteger 0 3) (constructiveInteger 1 5))
       (constructiveInteger 1 5)) \<and>
   trackersOk (\<lambda>t. if t = 0 then 3 else if t = 1 then 5 else if t = 2 then 8
                    else if t = 3 then 40 else 0) emptyHeap \<and>
   trackersHold emptyHeap \<and>
   need (constructiveMultiplication 3
       (constructiveAddition 2 (constructiveInteger 0 3) (constructiveInteger 1 5))
       (constructiveInteger 1 5)) = 9 \<and>
   \<bar>sint (- 4 :: goint)\<bar> + 9 < (2 ^ 60 :: int) \<and>
   map_sum id fst (Approximate noKernel (constructiveMultiplication 3
       (constructiveAddition 2 (constructiveInteger 0 3) (constructiveInteger 1 5))
       (constructiveInteger 1 5)) (- 4) emptyHeap) = Inr (Some 640) \<and>
   \<bar>of_int 640 * pow2 (sint (- 4 :: goint)) - 40\<bar> < pow2 (sint (- 4 :: goint)) \<and>
   \<bar>of_int 640 * pow2 (sint (- 4 :: goint)) - 40\<bar> < (1 :: real)"
proof -
  define W where "W = constructiveMultiplication 3
       (constructiveAddition 2 (constructiveInteger 0 3) (constructiveInteger 1 5))
       (constructiveInteger 1 5)"
  define V :: "addr \<Rightarrow> real" where "V = (\<lambda>t. if t = 0 then 3 else if t = 1 then 5
     else if t = 2 then 8 else if t = 3 then 40 else 0)"
  have a: "algebraic W" by (simp add: W_def)
  have c: "consistent V W" by (simp add: W_def V_def)
  have t: "trackersOk V emptyHeap" by (rule trackersOk_emptyHeap)
  have u: "trackersHold emptyHeap" by (rule trackersHold_emptyHeap)
  have n: "need W = 9" unfolding W_def by code_simp
  have k: "\<bar>sint (- 4 :: goint)\<bar> + 9 < (2 ^ 60 :: int)" by simp
  then have p: "\<bar>sint (- 4 :: goint)\<bar> + need W < 2 ^ 60" by (simp only: n)
  have s: "sint (- 4 :: goint) \<le> 0" by simp
  have r: "map_sum id fst (Approximate noKernel W (- 4) emptyHeap) = Inr (Some 640)"
    unfolding W_def by code_simp
  have v: "val W = 40" by (simp add: W_def)
  from approximation_contract [OF a c t u p, of noKernel] obtain x h'
    where e: "Approximate noKernel W (- 4) emptyHeap = Inr (Some x, h')"
      and e1: "\<bar>of_int x * pow2 (sint (- 4 :: goint)) - val W\<bar> < pow2 (sint (- 4 :: goint))"
      and e2: "sint (- 4 :: goint) \<le> 0 \<longrightarrow>
         \<bar>of_int x * pow2 (sint (- 4 :: goint)) - val W\<bar> < 1"
    by blast
  from e r have x: "x = 640" by simp
  from e1 e2 s have
    "\<bar>of_int 640 * pow2 (sint (- 4 :: goint)) - 40\<bar> < pow2 (sint (- 4 :: goint))"
    "\<bar>of_int 640 * pow2 (sint (- 4 :: goint)) - 40\<bar> < (1 :: real)"
    unfolding x v by blast+
  with a c t u n k r show ?thesis unfolding W_def V_def by blast
qed

end
